theory Spec2Isabelle
  imports Complex_Main "HOL-Library.Monad_Syntax" "HOL-Library.Log_Nat"
begin

section \<open>Optimal binary search trees: \<^verbatim>\<open>binary_tree.cpp\<close>\<close>

text \<open>
  The program has two functions.  \<^verbatim>\<open>optimalBST\<close> fills three tables (expected cost
  \<^verbatim>\<open>e\<close>, weight \<^verbatim>\<open>w\<close>, chosen root \<^verbatim>\<open>root\<close>) bottom-up by interval length;
  \<^verbatim>\<open>printOptimalStructure\<close> walks the root table recursively and prints one line per
  key and per dummy key (gap).

  Conventions of the embedding.
  \<^item> A \<^verbatim>\<open>std::vector\<close> is a list.  \<^verbatim>\<open>v[k]\<close> past the end is undefined behaviour in
    C++; here every indexing is checked and an out-of-range index makes the whole call
    \<open>None\<close>.
  \<^item> \<^verbatim>\<open>double\<close> is IEEE 754 binary64: every \<^verbatim>\<open>+\<close> is the exact sum rounded to the
    nearest representable value, ties to even, and overflows to infinity; \<^verbatim>\<open><\<close> is
    the IEEE comparison.  Each operation is rounded to binary64 on its own (no wider
    intermediate format), as compilers do on x86-64 and AArch64.
  \<^item> The loop counters of \<^verbatim>\<open>optimalBST\<close> never go below \<open>0\<close> and are natural numbers,
    as is the number of keys \<^verbatim>\<open>n\<close>.  The interval bounds of \<^verbatim>\<open>printOptimalStructure\<close>
    can become negative (\<^verbatim>\<open>r - 1\<close> for a table entry \<^verbatim>\<open>r = 0\<close>) and are integers.
  \<^item> The three tables are reference parameters: the model takes their contents on
    entry and returns their contents on exit.  \<^verbatim>\<open>main\<close> passes three empty vectors.
  \<^item> \<^verbatim>\<open>std::cout\<close> is the list of printed lines; each line is paired with the
    structural fact it states, so that properties of the report can speak about
    indices and not only about labels.
\<close>

subsection \<open>Binary64 numbers\<close>

text \<open>
  Every finite binary64 number is an integer multiple of \<open>2\<^sup>-\<^sup>1\<^sup>0\<^sup>7\<^sup>4\<close>, the least
  subnormal: \<open>Fin k\<close> is the number \<open>k \<sqdot> 2\<^sup>-\<^sup>1\<^sup>0\<^sup>7\<^sup>4\<close>.  The two zeros are one value, and so
  are the NaNs; no operation of the program tells them apart.
\<close>

datatype double = Fin int | PInf | NInf | NaN

text \<open>
  Rounding the integer \<open>s\<close> to a multiple of \<open>2\<^sup>k\<close>, to the nearest one and in a tie to
  the one with the even quotient.
\<close>

definition rne :: "int \<Rightarrow> nat \<Rightarrow> int" where
  "rne s k =
     (let q = s div 2 ^ k; r = s mod 2 ^ k
      in if 2 * r < 2 ^ k then q * 2 ^ k
         else if 2 ^ k < 2 * r then (q + 1) * 2 ^ k
         else if even q then q * 2 ^ k else (q + 1) * 2 ^ k)"

text \<open>
  Rounding an exact result \<open>s \<sqdot> 2\<^sup>-\<^sup>1\<^sup>0\<^sup>7\<^sup>4\<close> to binary64: a significand has 53 bits, so of
  the \<open>bitlen \<bar>s\<bar>\<close> bits of \<open>s\<close> all but the leading 53 are rounded away (none in the
  subnormal range); a result of magnitude \<open>2\<^sup>1\<^sup>0\<^sup>2\<^sup>4\<close> or more is an infinity.
\<close>

definition rnd :: "int \<Rightarrow> double" where
  "rnd s =
     (let r = rne s (nat (bitlen \<bar>s\<bar> - 53))
      in if \<bar>r\<bar> < 2 ^ 2098 then Fin r else if 0 < s then PInf else NInf)"

text \<open>The operator \<^verbatim>\<open>+\<close> on \<^verbatim>\<open>double\<close>.\<close>

fun dadd :: "double \<Rightarrow> double \<Rightarrow> double" where
  "dadd (Fin a) (Fin b) = rnd (a + b)"
| "dadd NaN y = NaN"
| "dadd x NaN = NaN"
| "dadd PInf NInf = NaN"
| "dadd NInf PInf = NaN"
| "dadd PInf y = PInf"
| "dadd x PInf = PInf"
| "dadd NInf y = NInf"
| "dadd x NInf = NInf"

text \<open>The operator \<^verbatim>\<open><\<close> on \<^verbatim>\<open>double\<close>: false whenever an operand is a NaN.\<close>

fun dless :: "double \<Rightarrow> double \<Rightarrow> bool" where
  "dless (Fin a) (Fin b) \<longleftrightarrow> a < b"
| "dless (Fin a) PInf \<longleftrightarrow> True"
| "dless NInf (Fin b) \<longleftrightarrow> True"
| "dless NInf PInf \<longleftrightarrow> True"
| "dless x y \<longleftrightarrow> False"

text \<open>
  The number \<open>m \<sqdot> 2\<^sup>e\<close> for \<open>e \<ge> -1074\<close>, and \<^verbatim>\<open>std::numeric_limits<double>::max()\<close>, that
  is \<open>(2\<^sup>5\<^sup>3 - 1) \<sqdot> 2\<^sup>9\<^sup>7\<^sup>1\<close>.
\<close>

definition dbl :: "int \<Rightarrow> int \<Rightarrow> double" where
  "dbl m e = Fin (m * 2 ^ nat (e + 1074))"

definition DBL_MAX :: double where
  "DBL_MAX = dbl (2 ^ 53 - 1) 971"

subsection \<open>Vectors\<close>

definition idx :: "'a list \<Rightarrow> nat \<Rightarrow> 'a option" where
  "idx v k = (if k < length v then Some (v ! k) else None)"

definition idx2 :: "'a list list \<Rightarrow> nat \<Rightarrow> nat \<Rightarrow> 'a option" where
  "idx2 t i j = do { row \<leftarrow> idx t i; idx row j }"

definition upd2 :: "'a list list \<Rightarrow> nat \<Rightarrow> nat \<Rightarrow> 'a \<Rightarrow> 'a list list option" where
  "upd2 t i j x =
     do { row \<leftarrow> idx t i;
          if j < length row then Some (t[i := row[j := x]]) else None }"

text \<open>\<^verbatim>\<open>v.resize(k, x)\<close>: keep the first \<open>k\<close> elements, pad with copies of \<open>x\<close>.\<close>

definition resize :: "nat \<Rightarrow> 'a \<Rightarrow> 'a list \<Rightarrow> 'a list" where
  "resize k x v = take k v @ replicate (k - length v) x"

text \<open>Indexing by an \<^verbatim>\<open>int\<close>; a negative index is out of range as well.\<close>

definition idx_int :: "'a list \<Rightarrow> int \<Rightarrow> 'a option" where
  "idx_int v k = (if 0 \<le> k then idx v (nat k) else None)"

subsection \<open>The table builder\<close>

record tables =
  e_tab :: "double list list"
  w_tab :: "double list list"
  root_tab :: "int list list"

text \<open>A counting loop \<^verbatim>\<open>for (k = a; k <= b; ++k) body\<close> runs the body over \<open>[a..<b + 1]\<close>.\<close>

primrec for_each :: "nat list \<Rightarrow> (nat \<Rightarrow> 's \<Rightarrow> 's option) \<Rightarrow> 's \<Rightarrow> 's option" where
  "for_each [] body s = Some s"
| "for_each (k # ks) body s = body k s \<bind> for_each ks body"

text \<open>Lines 42--45: \<^verbatim>\<open>e[i][i - 1] = q[i - 1]; w[i][i - 1] = q[i - 1];\<close>\<close>

definition base_case :: "double list \<Rightarrow> nat \<Rightarrow> tables \<Rightarrow> tables option" where
  "base_case q i t =
     do { x \<leftarrow> idx q (i - 1);
          e' \<leftarrow> upd2 (e_tab t) i (i - 1) x;
          y \<leftarrow> idx q (i - 1);
          w' \<leftarrow> upd2 (w_tab t) i (i - 1) y;
          Some (t\<lparr>e_tab := e', w_tab := w'\<rparr>) }"

text \<open>
  Lines 67--78, one round of the scan over the candidate roots \<open>r\<close>:
  \<^verbatim>\<open>cost = e[i][r - 1] + e[r + 1][j] + w[i][j]; if (cost < e[i][j]) ...\<close>, the sum taken
  from the left, each \<^verbatim>\<open>+\<close> rounded.
\<close>

definition try_root :: "nat \<Rightarrow> nat \<Rightarrow> nat \<Rightarrow> tables \<Rightarrow> tables option" where
  "try_root i j r t =
     do { a \<leftarrow> idx2 (e_tab t) i (r - 1);
          b \<leftarrow> idx2 (e_tab t) (r + 1) j;
          c \<leftarrow> idx2 (w_tab t) i j;
          let cost = dadd (dadd a b) c;
          cur \<leftarrow> idx2 (e_tab t) i j;
          if dless cost cur then
            do { e' \<leftarrow> upd2 (e_tab t) i j cost;
                 root' \<leftarrow> upd2 (root_tab t) i j (int r);
                 Some (t\<lparr>e_tab := e', root_tab := root'\<rparr>) }
          else Some t }"

text \<open>
  Lines 52--79, the body of the loop over the start \<open>i\<close> of the interval:
  \<^verbatim>\<open>e[i][j] = numeric_limits<double>::max(); w[i][j] = w[i][j - 1] + p[j] + q[j];\<close>
  and the scan.
\<close>

definition fill_cell :: "double list \<Rightarrow> double list \<Rightarrow> nat \<Rightarrow> nat \<Rightarrow> tables \<Rightarrow> tables option" where
  "fill_cell p q l i t =
     do { let j = i + l - 1;
          e' \<leftarrow> upd2 (e_tab t) i j DBL_MAX;
          a \<leftarrow> idx2 (w_tab t) i (j - 1);
          pj \<leftarrow> idx p j;
          qj \<leftarrow> idx q j;
          w' \<leftarrow> upd2 (w_tab t) i j (dadd (dadd a pj) qj);
          for_each [i..<j + 1] (try_root i j) (t\<lparr>e_tab := e', w_tab := w'\<rparr>) }"

definition optimalBST ::
  "double list \<Rightarrow> double list \<Rightarrow> nat \<Rightarrow> double list list \<Rightarrow> double list list \<Rightarrow> int list list
     \<Rightarrow> tables option" where
  "optimalBST p q n e w roots =
     do { let t = \<lparr>e_tab = resize (n + 2) (replicate (n + 2) (Fin 0)) e,
                   w_tab = resize (n + 2) (replicate (n + 2) (Fin 0)) w,
                   root_tab = resize (n + 2) (replicate (n + 2) 0) roots\<rparr>;
          t \<leftarrow> for_each [1..<n + 1 + 1] (base_case q) t;
          for_each [1..<n + 1]
            (\<lambda>l. for_each [1..<n - l + 1 + 1] (fill_cell p q l)) t }"

subsection \<open>The structure reporter\<close>

datatype fact =
    RootFact int
  | ChildFact int bool int
  | GapFact int bool int

definition side :: "bool \<Rightarrow> string" where
  "side is_left_child = (if is_left_child then ''filho esquerdo'' else ''filho direito'')"

definition gap_line :: "string \<Rightarrow> bool \<Rightarrow> string \<Rightarrow> string" where
  "gap_line d is_left_child k = [CHR 0x09] @ d @ '' e o '' @ side is_left_child @ '' de '' @ k"

definition root_line :: "string \<Rightarrow> string" where
  "root_line k = k @ '' e a raiz da arvore.''"

definition child_line :: "string \<Rightarrow> bool \<Rightarrow> string \<Rightarrow> string" where
  "child_line k is_left_child k' = k @ '' e o '' @ side is_left_child @ '' de '' @ k'"

text \<open>
  The recursion follows the table and need not end; \<open>None\<close> is a call that does not
  return a report (unbounded recursion, or an index out of range).
\<close>

partial_function (option) printOptimalStructure ::
  "int list list \<Rightarrow> string list \<Rightarrow> string list \<Rightarrow> int \<Rightarrow> int \<Rightarrow> int \<Rightarrow> bool
     \<Rightarrow> (fact \<times> string) list option" where
  "printOptimalStructure roots keys dummies i j parent_r is_left_child =
     (if i > j then
        (if j = i - 1 then
           do { d \<leftarrow> idx_int dummies j;
                k \<leftarrow> idx_int keys parent_r;
                Some [(GapFact j is_left_child parent_r, gap_line d is_left_child k)] }
         else Some [])
      else
        do { row \<leftarrow> idx_int roots i;
             r \<leftarrow> idx_int row j;
             here \<leftarrow>
               (if parent_r = 0 then
                  do { k \<leftarrow> idx_int keys r;
                       Some (RootFact r, root_line k) }
                else
                  do { k \<leftarrow> idx_int keys r;
                       k' \<leftarrow> idx_int keys parent_r;
                       Some (ChildFact r is_left_child parent_r, child_line k is_left_child k') });
             ls \<leftarrow> printOptimalStructure roots keys dummies i (r - 1) r True;
             rs \<leftarrow> printOptimalStructure roots keys dummies (r + 1) j r False;
             Some (here # ls @ rs) })"

declare printOptimalStructure.simps [code]

section \<open>Vocabulary of the proofs and of the claims\<close>

subsection \<open>Order and value of binary64 numbers\<close>

text \<open>
  The operator \<^verbatim>\<open><=\<close> of IEEE 754 (false whenever an operand is a NaN), and the real
  number a finite \<^verbatim>\<open>double\<close> stands for.
\<close>

fun dle :: "double \<Rightarrow> double \<Rightarrow> bool" where
  "dle (Fin a) (Fin b) \<longleftrightarrow> a \<le> b"
| "dle (Fin a) PInf \<longleftrightarrow> True"
| "dle NInf (Fin b) \<longleftrightarrow> True"
| "dle NInf PInf \<longleftrightarrow> True"
| "dle NInf NInf \<longleftrightarrow> True"
| "dle PInf PInf \<longleftrightarrow> True"
| "dle x y \<longleftrightarrow> False"

fun val :: "double \<Rightarrow> real" where
  "val (Fin k) = real_of_int k / 2 ^ 1074"
| "val x = 0"

text \<open>
  For the proofs the numbers are ordered in one line, \<open>-\<infinity> < Fin k < +\<infinity> < NaN\<close>; away
  from NaN this is the order of \<^const>\<open>dless\<close> and \<^const>\<open>dle\<close>.
\<close>

fun rank :: "double \<Rightarrow> int" where
  "rank NInf = 0"
| "rank (Fin k) = 1"
| "rank PInf = 2"
| "rank NaN = 3"

fun mant :: "double \<Rightarrow> int" where
  "mant (Fin k) = k"
| "mant x = 0"

instantiation double :: linorder
begin

definition less_eq_double :: "double \<Rightarrow> double \<Rightarrow> bool" where
  "less_eq_double x y \<longleftrightarrow> rank x < rank y \<or> (rank x = rank y \<and> mant x \<le> mant y)"

definition less_double :: "double \<Rightarrow> double \<Rightarrow> bool" where
  "less_double x y \<longleftrightarrow> rank x < rank y \<or> (rank x = rank y \<and> mant x < mant y)"

instance
proof
  fix x y z :: double
  show "x < y \<longleftrightarrow> x \<le> y \<and> \<not> y \<le> x"
    by (auto simp: less_eq_double_def less_double_def)
  show "x \<le> x"
    by (simp add: less_eq_double_def)
  show "x \<le> y \<Longrightarrow> y \<le> z \<Longrightarrow> x \<le> z"
    by (auto simp: less_eq_double_def)
  show "x \<le> y \<Longrightarrow> y \<le> x \<Longrightarrow> x = y"
    by (cases x; cases y) (auto simp: less_eq_double_def)
  show "x \<le> y \<or> y \<le> x"
    by (auto simp: less_eq_double_def)
qed

end

text \<open>
  A binary64 number that is finite and not negative, and one that is such or \<open>+\<infinity>\<close>.
  (\<open>Fin k\<close> is a binary64 number when rounding leaves it unchanged.)
\<close>

fun finite_nonneg :: "double \<Rightarrow> bool" where
  "finite_nonneg (Fin k) \<longleftrightarrow> 0 \<le> k \<and> rnd k = Fin k"
| "finite_nonneg x \<longleftrightarrow> False"

fun nn :: "double \<Rightarrow> bool" where
  "nn (Fin k) \<longleftrightarrow> 0 \<le> k \<and> rnd k = Fin k"
| "nn PInf \<longleftrightarrow> True"
| "nn x \<longleftrightarrow> False"

subsection \<open>Tables of the declared size\<close>

text \<open>A table with \<open>n + 2\<close> rows of \<open>n + 2\<close> cells, and the write \<^verbatim>\<open>t[i][j] = x\<close> on it.\<close>

definition square :: "nat \<Rightarrow> 'a list list \<Rightarrow> bool" where
  "square n t \<longleftrightarrow> length t = n + 2 \<and> (\<forall>row \<in> set t. length row = n + 2)"

definition set2 :: "'a list list \<Rightarrow> nat \<Rightarrow> nat \<Rightarrow> 'a \<Rightarrow> 'a list list" where
  "set2 t i j x = t[i := (t ! i)[j := x]]"

text \<open>
  All three tables of the declared size; the candidate cost \<^verbatim>\<open>e[i][r - 1] + e[r + 1][j] + w[i][j]\<close> of root \<open>r\<close>; one round of the
  scan on the pair (running minimum, recorded root), and the write of such a pair into
  cell \<open>(i, j)\<close>.
\<close>

definition tsquare :: "nat \<Rightarrow> tables \<Rightarrow> bool" where
  "tsquare n t \<longleftrightarrow> square n (e_tab t) \<and> square n (w_tab t) \<and> square n (root_tab t)"

definition cand :: "tables \<Rightarrow> nat \<Rightarrow> nat \<Rightarrow> nat \<Rightarrow> double" where
  "cand t i j r = dadd (dadd (e_tab t ! i ! (r - 1)) (e_tab t ! (r + 1) ! j)) (w_tab t ! i ! j)"

definition scan_step :: "(nat \<Rightarrow> double) \<Rightarrow> double \<times> int \<Rightarrow> nat \<Rightarrow> double \<times> int" where
  "scan_step c mr r = (if dless (c r) (fst mr) then (c r, int r) else mr)"

definition store :: "tables \<Rightarrow> nat \<Rightarrow> nat \<Rightarrow> double \<times> int \<Rightarrow> tables" where
  "store t i j mr = t\<lparr>e_tab := set2 (e_tab t) i j (fst mr), root_tab := set2 (root_tab t) i j (snd mr)\<rparr>"

text \<open>
  What the loops establish: a non-empty cell holds the incremental weight and the
  result of the scan started from \<open>(DBL_MAX, 0)\<close>; an empty cell holds \<open>q[i - 1]\<close>.
  \<open>done_cell l k\<close> are the cells written before the loops reach length \<open>l\<close>, start \<open>k\<close>.
\<close>

definition cell_ok :: "double list \<Rightarrow> double list \<Rightarrow> tables \<Rightarrow> nat \<Rightarrow> nat \<Rightarrow> bool" where
  "cell_ok p q t i j \<longleftrightarrow>
     w_tab t ! i ! j = dadd (dadd (w_tab t ! i ! (j - 1)) (p ! j)) (q ! j) \<and>
     (e_tab t ! i ! j, root_tab t ! i ! j) =
       foldl (scan_step (cand t i j)) (DBL_MAX, 0) [i..<j + 1]"

definition base_ok :: "double list \<Rightarrow> tables \<Rightarrow> nat \<Rightarrow> bool" where
  "base_ok q t i \<longleftrightarrow> e_tab t ! i ! (i - 1) = q ! (i - 1) \<and> w_tab t ! i ! (i - 1) = q ! (i - 1)"

definition done_cell :: "nat \<Rightarrow> nat \<Rightarrow> nat \<Rightarrow> nat \<Rightarrow> bool" where
  "done_cell l k i j \<longleftrightarrow> j + 1 - i < l \<or> (j + 1 - i = l \<and> i < k)"

definition filled :: "double list \<Rightarrow> double list \<Rightarrow> nat \<Rightarrow> nat \<Rightarrow> nat \<Rightarrow> tables \<Rightarrow> bool" where
  "filled p q n l k t \<longleftrightarrow>
     tsquare n t \<and>
     (\<forall>i. 1 \<le> i \<and> i \<le> n + 1 \<longrightarrow> base_ok q t i) \<and>
     (\<forall>i j. 1 \<le> i \<and> i \<le> j \<and> j \<le> n \<longrightarrow>
        (if done_cell l k i j then cell_ok p q t i j else root_tab t ! i ! j = 0))"

definition final :: "double list \<Rightarrow> double list \<Rightarrow> nat \<Rightarrow> tables \<Rightarrow> bool" where
  "final p q n t \<longleftrightarrow>
     tsquare n t \<and>
     (\<forall>i. 1 \<le> i \<and> i \<le> n + 1 \<longrightarrow> base_ok q t i) \<and>
     (\<forall>i j. 1 \<le> i \<and> i \<le> j \<and> j \<le> n \<longrightarrow> cell_ok p q t i j)"

text \<open>The three tables after the \<^verbatim>\<open>resize\<close> of empty vectors.\<close>

definition fresh :: "nat \<Rightarrow> tables" where
  "fresh n = \<lparr>e_tab = resize (n + 2) (replicate (n + 2) (Fin 0)) [],
              w_tab = resize (n + 2) (replicate (n + 2) (Fin 0)) [],
              root_tab = resize (n + 2) (replicate (n + 2) 0) []\<rparr>"

subsection \<open>Weights\<close>

text \<open>
  The sum \<open>q[i-1] + p[i] + q[i] + \<dots> + p[j] + q[j]\<close> taken from the left in binary64,
  every addition rounded.
\<close>

definition weight_sum :: "double list \<Rightarrow> double list \<Rightarrow> nat \<Rightarrow> nat \<Rightarrow> double" where
  "weight_sum p q i j = foldl (\<lambda>a k. dadd (dadd a (p ! k)) (q ! k)) (q ! (i - 1)) [i..<j + 1]"

text \<open>
  The tables the builder returns for \<open>p = [_, 1]\<close>, \<open>q = [2\<^sup>-\<^sup>5\<^sup>3, 2\<^sup>-\<^sup>5\<^sup>3]\<close>, \<open>n = 1\<close>.
\<close>

definition rounding_tables :: tables where
  "rounding_tables =
     \<lparr>e_tab = [[Fin 0, Fin 0, Fin 0],
               [dbl 1 (- 53), dbl 9007199254740994 (- 53), Fin 0],
               [Fin 0, dbl 1 (- 53), Fin 0]],
      w_tab = [[Fin 0, Fin 0, Fin 0],
               [dbl 1 (- 53), dbl 9007199254740992 (- 53), Fin 0],
               [Fin 0, dbl 1 (- 53), Fin 0]],
      root_tab = [[0, 0, 0], [0, 1, 0], [0, 0, 0]]\<rparr>"

text \<open>The inputs the claims are about: \<open>p[1..n]\<close> and \<open>q[0..n]\<close> finite and not negative.\<close>

definition nonneg :: "double list \<Rightarrow> double list \<Rightarrow> nat \<Rightarrow> bool" where
  "nonneg p q n \<longleftrightarrow>
     (\<forall>k \<in> {1..n}. finite_nonneg (p ! k)) \<and> (\<forall>k \<in> {0..n}. finite_nonneg (q ! k))"

text \<open>
  The tables the builder returns for \<open>p = [_, DBL_MAX]\<close>, \<open>q = [DBL_MAX, 0]\<close>, \<open>n = 1\<close>.
\<close>

definition overflow_tables :: tables where
  "overflow_tables =
     \<lparr>e_tab = [[Fin 0, Fin 0, Fin 0], [DBL_MAX, DBL_MAX, Fin 0], [Fin 0, Fin 0, Fin 0]],
      w_tab = [[Fin 0, Fin 0, Fin 0], [DBL_MAX, PInf, Fin 0], [Fin 0, Fin 0, Fin 0]],
      root_tab = [[0, 0, 0], [0, 0, 0], [0, 0, 0]]\<rparr>"

subsection \<open>Tree shapes and their expected cost\<close>

text \<open>
  The shapes of binary search trees: a dummy key (gap) is a leaf, a key has two
  subtrees.  The keys of a shape are numbered in order from the left, so a shape with
  \<open>n\<close> keys placed at key \<open>i\<close> holds the keys \<open>i..i+n-1\<close> and the gaps \<open>i-1..i+n-1\<close>.
\<close>

datatype shape = Gap | Key shape shape

fun nodes :: "shape \<Rightarrow> nat" where
  "nodes Gap = 0"
| "nodes (Key l r) = nodes l + nodes r + 1"

text \<open>The depths of the keys and of the gaps, from left to right; the root has depth \<open>d\<close>.\<close>

fun key_depths :: "nat \<Rightarrow> shape \<Rightarrow> nat list" where
  "key_depths d Gap = []"
| "key_depths d (Key l r) = key_depths (d + 1) l @ d # key_depths (d + 1) r"

fun gap_depths :: "nat \<Rightarrow> shape \<Rightarrow> nat list" where
  "gap_depths d Gap = [d]"
| "gap_depths d (Key l r) = gap_depths (d + 1) l @ gap_depths (d + 1) r"

text \<open>\<open>sum (ds[k] * v[i + k])\<close> over the positions \<open>k\<close> of \<open>ds\<close>.\<close>

definition wsum :: "nat list \<Rightarrow> real list \<Rightarrow> nat \<Rightarrow> real" where
  "wsum ds v i = (\<Sum>k<length ds. real (ds ! k) * v ! (i + k))"

text \<open>
  The expected search cost of a shape whose first key is key \<open>i\<close>:
  \<open>sum (depth(key) * p[key]) + sum (depth(gap) * q[gap])\<close>, the root counting one
  comparison.
\<close>

definition expected_cost :: "real list \<Rightarrow> real list \<Rightarrow> nat \<Rightarrow> shape \<Rightarrow> real" where
  "expected_cost p q i s = wsum (key_depths 1 s) p i + wsum (gap_depths 1 s) q (i - 1)"

text \<open>Every shape with \<open>n\<close> keys, by the number of keys in the left subtree.\<close>

fun all_shapes :: "nat \<Rightarrow> shape list" where
  "all_shapes 0 = [Gap]"
| "all_shapes (Suc n) =
     concat (map (\<lambda>k. concat (map (\<lambda>l. map (\<lambda>r. Key l r) (all_shapes (n - k))) (all_shapes k)))
       [0..<Suc n])"

definition min_cost :: "real list \<Rightarrow> real list \<Rightarrow> nat \<Rightarrow> real" where
  "min_cost p q n = Min (expected_cost p q 1 ` set (all_shapes n))"

text \<open>
  The weight of an interval in closed form, and the cost of a shape by recursion
  (used in the proofs; \<open>expected_cost_at\<close> relates it to \<^const>\<open>expected_cost\<close>).
\<close>

definition weight :: "real list \<Rightarrow> real list \<Rightarrow> nat \<Rightarrow> nat \<Rightarrow> real" where
  "weight p q i j = (\<Sum>k = i..j. p ! k) + (\<Sum>k = i - 1..j. q ! k)"

fun cost_at :: "real list \<Rightarrow> real list \<Rightarrow> nat \<Rightarrow> nat \<Rightarrow> shape \<Rightarrow> real" where
  "cost_at p q d i Gap = real d * q ! (i - 1)"
| "cost_at p q d i (Key l r) =
     cost_at p q (Suc d) i l + real d * p ! (i + nodes l) + cost_at p q (Suc d) (i + nodes l + 1) r"

text \<open>
  The cost of a shape as the program's arithmetic yields it: the recursion
  \<open>cost(left) + cost(right) + w\<close> of the table builder, the sums taken in binary64 in
  the program's order.  (In exact arithmetic this recursion is the expected cost,
  lemmas \<open>cost_at_Key\<close> and \<open>expected_cost_at\<close>.)
\<close>

fun fcost :: "double list \<Rightarrow> double list \<Rightarrow> nat \<Rightarrow> shape \<Rightarrow> double" where
  "fcost p q i Gap = q ! (i - 1)"
| "fcost p q i (Key l r) =
     dadd (dadd (fcost p q i l) (fcost p q (i + nodes l + 1) r))
       (weight_sum p q i (i + nodes l + nodes r))"

subsection \<open>Reports as traversals of trees\<close>

text \<open>
  Trees with their key and gap indices, and the report the reporter prints for a tree
  that hangs under \<open>parent_r\<close>: the node first, then its left and its right subtree.
\<close>

datatype bst = GapLeaf int | KeyNode bst int bst

fun report_of :: "bst \<Rightarrow> int \<Rightarrow> bool \<Rightarrow> fact list" where
  "report_of (GapLeaf g) parent_r is_left_child = [GapFact g is_left_child parent_r]"
| "report_of (KeyNode l r rt) parent_r is_left_child =
     (if parent_r = 0 then RootFact r else ChildFact r is_left_child parent_r)
       # report_of l r True @ report_of rt r False"

fun keys_of :: "bst \<Rightarrow> int list" where
  "keys_of (GapLeaf g) = []"
| "keys_of (KeyNode l r rt) = keys_of l @ r # keys_of rt"

fun gaps_of :: "bst \<Rightarrow> int list" where
  "gaps_of (GapLeaf g) = [g]"
| "gaps_of (KeyNode l r rt) = gaps_of l @ gaps_of rt"

text \<open>The key indices and the gap indices a report mentions, in the order of the report.\<close>

fun key_index :: "fact \<Rightarrow> int list" where
  "key_index (RootFact r) = [r]"
| "key_index (ChildFact r s parent_r) = [r]"
| "key_index (GapFact g s parent_r) = []"

fun gap_index :: "fact \<Rightarrow> int list" where
  "gap_index (RootFact r) = []"
| "gap_index (ChildFact r s parent_r) = []"
| "gap_index (GapFact g s parent_r) = [g]"

definition key_indices :: "fact list \<Rightarrow> int list" where
  "key_indices fs = concat (map key_index fs)"

definition gap_indices :: "fact list \<Rightarrow> int list" where
  "gap_indices fs = concat (map gap_index fs)"

text \<open>
  The inputs of \<^verbatim>\<open>main\<close>: the binary64 numbers the compiler puts for the decimal
  literals \<^verbatim>\<open>0.15\<close>, \<^verbatim>\<open>0.10\<close>, \<^verbatim>\<open>0.05\<close>, \<^verbatim>\<open>0.20\<close> (the nearest ones), and the tables
  the builder returns for them.
\<close>

definition reference_p :: "double list" where
  "reference_p =
     [Fin 0, dbl 5404319552844595 (- 55), dbl 3602879701896397 (- 55),
      dbl 3602879701896397 (- 56), dbl 3602879701896397 (- 55), dbl 3602879701896397 (- 54)]"

definition reference_q :: "double list" where
  "reference_q =
     [dbl 3602879701896397 (- 56), dbl 3602879701896397 (- 55), dbl 3602879701896397 (- 56),
      dbl 3602879701896397 (- 56), dbl 3602879701896397 (- 56), dbl 3602879701896397 (- 55)]"

definition reference_tables :: tables where
  "reference_tables =
     \<lparr>e_tab =
        [[Fin 0, Fin 0, Fin 0, Fin 0, Fin 0, Fin 0, Fin 0],
         [dbl 3602879701896397 (- 56), dbl 4053239664633447 (- 53),
          dbl 8106479329266893 (- 53), dbl 5 (- 2), dbl 7 (- 2), dbl 11 (- 2), Fin 0],
         [Fin 0, dbl 3602879701896397 (- 55), dbl 3602879701896397 (- 53),
          dbl 3152519739159347 (- 52), dbl 5404319552844595 (- 52), dbl 2 0, Fin 0],
         [Fin 0, Fin 0, dbl 3602879701896397 (- 56), dbl 1 (- 2), dbl 5404319552844595 (- 53),
          dbl 1463669878895411 (- 50), Fin 0],
         [Fin 0, Fin 0, Fin 0, dbl 3602879701896397 (- 56), dbl 1351079888211149 (- 52),
          dbl 8106479329266893 (- 53), Fin 0],
         [Fin 0, Fin 0, Fin 0, Fin 0, dbl 3602879701896397 (- 56), dbl 1 (- 1), Fin 0],
         [Fin 0, Fin 0, Fin 0, Fin 0, Fin 0, dbl 3602879701896397 (- 55), Fin 0]],
      w_tab =
        [[Fin 0, Fin 0, Fin 0, Fin 0, Fin 0, Fin 0, Fin 0],
         [dbl 3602879701896397 (- 56), dbl 1351079888211149 (- 52),
          dbl 8106479329266893 (- 54), dbl 2476979795053773 (- 52),
          dbl 6305039478318695 (- 53), dbl 4503599627370497 (- 52), Fin 0],
         [Fin 0, dbl 3602879701896397 (- 55), dbl 1 (- 2), dbl 3152519739159347 (- 53),
          dbl 9007199254740991 (- 54), dbl 7205759403792793 (- 53), Fin 0],
         [Fin 0, Fin 0, dbl 3602879701896397 (- 56), dbl 1351079888211149 (- 53),
          dbl 5404319552844595 (- 54), dbl 5404319552844595 (- 53), Fin 0],
         [Fin 0, Fin 0, Fin 0, dbl 3602879701896397 (- 56), dbl 3602879701896397 (- 54),
          dbl 1 (- 1), Fin 0],
         [Fin 0, Fin 0, Fin 0, Fin 0, dbl 3602879701896397 (- 56),
          dbl 3152519739159347 (- 53), Fin 0],
         [Fin 0, Fin 0, Fin 0, Fin 0, Fin 0, dbl 3602879701896397 (- 55), Fin 0]],
      root_tab =
        [[0, 0, 0, 0, 0, 0, 0],
         [0, 1, 1, 2, 2, 2, 0],
         [0, 0, 2, 2, 2, 4, 0],
         [0, 0, 0, 3, 4, 5, 0],
         [0, 0, 0, 0, 4, 5, 0],
         [0, 0, 0, 0, 0, 5, 0],
         [0, 0, 0, 0, 0, 0, 0]]\<rparr>"

text \<open>The tables for \<open>n = 0\<close>, \<open>q = [1.0]\<close>.\<close>

definition single_gap_tables :: tables where
  "single_gap_tables =
     \<lparr>e_tab = [[Fin 0, Fin 0], [dbl 1 0, Fin 0]], w_tab = [[Fin 0, Fin 0], [dbl 1 0, Fin 0]],
      root_tab = [[0, 0], [0, 0]]\<rparr>"

section \<open>Binary64 arithmetic\<close>

subsection \<open>Rounding to a multiple of a power of two\<close>

lemma rne_grid: "rne (m * 2 ^ k) k = m * 2 ^ k"
  by (simp add: rne_def)

lemma rne_dvd_id: "2 ^ k dvd s \<Longrightarrow> rne s k = s"
  by (auto simp: rne_def Let_def elim!: dvdE)

lemma rne_pow: "k \<le> m \<Longrightarrow> rne (2 ^ m) k = 2 ^ m"
  by (rule rne_dvd_id) (simp add: le_imp_power_dvd)

lemma rne_0 [simp]: "rne s 0 = s"
  by (simp add: rne_def)

lemma rne_dvd: "2 ^ k dvd rne s k"
  by (simp add: rne_def Let_def)

lemma rne_lower: "(s div 2 ^ k) * 2 ^ k \<le> rne s k"
  by (simp add: rne_def Let_def algebra_simps)

lemma rne_upper: "rne s k \<le> (s div 2 ^ k + 1) * 2 ^ k"
  by (simp add: rne_def Let_def algebra_simps)

lemma rne_mono:
  assumes "s \<le> t"
  shows "rne s k \<le> rne t k"
proof (cases "s div 2 ^ k = t div 2 ^ k")
  case True
  have "s mod 2 ^ k = s - (s div 2 ^ k) * 2 ^ k" "t mod 2 ^ k = t - (t div 2 ^ k) * 2 ^ k"
    by (simp_all add: minus_div_mult_eq_mod)
  with assms True have "s mod 2 ^ k \<le> t mod 2 ^ k" by simp
  with True show ?thesis
    by (simp add: rne_def Let_def algebra_simps)
next
  case False
  moreover from assms have "s div 2 ^ k \<le> t div 2 ^ k"
    by (simp add: zdiv_mono1)
  ultimately have "s div 2 ^ k + 1 \<le> t div 2 ^ k" by simp
  then have "(s div 2 ^ k + 1) * 2 ^ k \<le> (t div 2 ^ k) * (2 ^ k :: int)"
    by (rule mult_right_mono) simp
  with rne_upper[of s k] rne_lower[of t k] show ?thesis by linarith
qed

lemma rne_scale: "rne (s * 2 ^ j) (k + j) = rne s k * 2 ^ j"
proof -
  have d: "s * 2 ^ j div 2 ^ (k + j) = s div (2 ^ k :: int)"
    by (simp add: power_add)
  have m: "s * 2 ^ j mod 2 ^ (k + j) = (s mod 2 ^ k) * (2 ^ j :: int)"
    by (simp add: power_add)
  have c1: "2 * ((s mod 2 ^ k) * 2 ^ j) < 2 ^ (k + j) \<longleftrightarrow> 2 * (s mod 2 ^ k) < (2 ^ k :: int)"
    using mult_less_cancel_right_pos[of "2 ^ j :: int" "2 * (s mod 2 ^ k)" "2 ^ k"]
    by (simp add: power_add mult_ac)
  have c2: "2 ^ (k + j) < 2 * ((s mod 2 ^ k) * 2 ^ j) \<longleftrightarrow> (2 ^ k :: int) < 2 * (s mod 2 ^ k)"
    using mult_less_cancel_right_pos[of "2 ^ j :: int" "2 ^ k" "2 * (s mod 2 ^ k)"]
    by (simp add: power_add mult_ac)
  show ?thesis
    unfolding rne_def Let_def d m c1 c2 by (simp add: power_add mult_ac)
qed

subsection \<open>The order on the constructors\<close>

lemma Fin_le_iff [simp]: "Fin a \<le> Fin b \<longleftrightarrow> a \<le> b"
  by (simp add: less_eq_double_def)

lemma Fin_less_iff [simp]: "Fin a < Fin b \<longleftrightarrow> a < b"
  by (simp add: less_double_def)

lemma Fin_PInf [simp]: "Fin a \<le> PInf" "Fin a < PInf" "\<not> PInf \<le> Fin a" "\<not> PInf < Fin a"
  by (simp_all add: less_eq_double_def less_double_def)

lemma dless_nn: "nn a \<Longrightarrow> nn b \<Longrightarrow> dless a b \<longleftrightarrow> a < b"
  by (cases a; cases b) simp_all

lemma dle_nn: "nn a \<Longrightarrow> nn b \<Longrightarrow> dle a b \<longleftrightarrow> a \<le> b"
  by (cases a; cases b) simp_all

lemma finite_nonneg_nn: "finite_nonneg x \<Longrightarrow> nn x"
  by (cases x) simp_all

lemma nn_zero_le: "nn a \<Longrightarrow> Fin 0 \<le> a"
  by (cases a) simp_all

subsection \<open>Rounding to binary64\<close>

lemma bitlen_eqI:
  assumes "2 ^ (b - 1) \<le> x" "x < 2 ^ b" "0 < b"
  shows "bitlen x = int b"
proof (rule antisym)
  from assms(2) show "bitlen x \<le> int b"
    by (simp add: bitlen_le_iff_power)
  from assms(1) show "int b \<le> bitlen x"
    by (simp add: bitlen_ge_iff_power)
qed

lemma bitlen_mono:
  assumes "0 < s" "s \<le> t"
  shows "bitlen s \<le> bitlen t"
proof -
  from assms have "0 < t" by simp
  from bitlen_bounds[OF this] assms(2) have "s < 2 ^ nat (bitlen t)" by simp
  then show ?thesis
    by (simp add: bitlen_le_iff_power bitlen_nonneg)
qed

lemma rnd_0 [simp]: "rnd 0 = Fin 0"
  by (simp add: rnd_def)

lemma rne_range:
  assumes "0 < s"
  shows "2 ^ nat (bitlen s - 1) \<le> rne s (nat (bitlen s - 53))"
    and "rne s (nat (bitlen s - 53)) \<le> 2 ^ nat (bitlen s)"
proof -
  let ?k = "nat (bitlen s - 53)"
  from bitlen_bounds[OF assms] have b: "2 ^ nat (bitlen s - 1) \<le> s" "s \<le> 2 ^ nat (bitlen s)"
    by simp_all
  have "rne (2 ^ nat (bitlen s - 1)) ?k \<le> rne s ?k"
    by (rule rne_mono) (rule b(1))
  moreover have "rne (2 ^ nat (bitlen s - 1)) ?k = 2 ^ nat (bitlen s - 1)"
    by (rule rne_pow) simp
  ultimately show "2 ^ nat (bitlen s - 1) \<le> rne s ?k" by simp
  have "rne s ?k \<le> rne (2 ^ nat (bitlen s)) ?k"
    by (rule rne_mono) (rule b(2))
  moreover have "rne (2 ^ nat (bitlen s)) ?k = 2 ^ nat (bitlen s)"
    by (rule rne_pow) simp
  ultimately show "rne s ?k \<le> 2 ^ nat (bitlen s)" by simp
qed

lemma rnd_pos:
  assumes "0 < s"
  shows "rnd s = (if rne s (nat (bitlen s - 53)) < 2 ^ 2098
                  then Fin (rne s (nat (bitlen s - 53))) else PInf)"
proof -
  have "(0::int) < 2 ^ nat (bitlen s - 1)" by simp
  with rne_range(1)[OF assms] have "0 < rne s (nat (bitlen s - 53))" by linarith
  with assms show ?thesis
    by (simp add: rnd_def Let_def)
qed

lemma rnd_exact:
  assumes "\<bar>m\<bar> < 2 ^ 53" "\<bar>m\<bar> * 2 ^ j < 2 ^ 2098"
  shows "rnd (m * 2 ^ j) = Fin (m * 2 ^ j)"
proof -
  have a: "\<bar>m * 2 ^ j\<bar> = \<bar>m\<bar> * 2 ^ j"
    by (simp add: abs_mult)
  from assms(1) have "\<bar>m\<bar> * 2 ^ j < 2 ^ 53 * 2 ^ j"
    by simp
  also have "(2::int) ^ 53 * 2 ^ j = 2 ^ (53 + j)"
    by (simp only: power_add)
  finally have "\<bar>m * 2 ^ j\<bar> < 2 ^ (53 + j)"
    unfolding a .
  then have "bitlen \<bar>m * 2 ^ j\<bar> \<le> int (53 + j)"
    using bitlen_le_iff_power[of "\<bar>m * 2 ^ j\<bar>" "int (53 + j)"] by (simp only: nat_int) simp
  then have "nat (bitlen \<bar>m * 2 ^ j\<bar> - 53) \<le> j" by simp
  then have "(2::int) ^ nat (bitlen \<bar>m * 2 ^ j\<bar> - 53) dvd 2 ^ j"
    by (rule le_imp_power_dvd)
  then have "2 ^ nat (bitlen \<bar>m * 2 ^ j\<bar> - 53) dvd m * 2 ^ j"
    by (rule dvd_mult)
  then have "rne (m * 2 ^ j) (nat (bitlen \<bar>m * 2 ^ j\<bar> - 53)) = m * 2 ^ j"
    by (rule rne_dvd_id)
  moreover from assms(2) have "\<bar>m * 2 ^ j\<bar> < 2 ^ 2098"
    unfolding a .
  ultimately show ?thesis
    unfolding rnd_def Let_def by (simp only: if_True)
qed

lemma nn_rnd:
  assumes "0 \<le> s"
  shows "nn (rnd s)"
proof (cases "s = 0")
  case True
  then show ?thesis by simp
next
  case False
  with assms have s: "0 < s" by simp
  let ?k = "nat (bitlen s - 53)"
  let ?r = "rne s ?k"
  show ?thesis
  proof (cases "?r < 2 ^ 2098")
    case False
    with rnd_pos[OF s] show ?thesis by simp
  next
    case True
    with rnd_pos[OF s] have eq: "rnd s = Fin ?r" by simp
    have "(0::int) < 2 ^ nat (bitlen s - 1)" by simp
    with rne_range(1)[OF s] have pos: "0 < ?r" by linarith
    from s have b1: "1 \<le> bitlen s"
      using bitlen_eq_zero_iff[of s] bitlen_nonneg[of s] by linarith
    have dvd: "2 ^ nat (bitlen ?r - 53) dvd ?r"
    proof (cases "?r < 2 ^ nat (bitlen s)")
      case True
      have "bitlen ?r = int (nat (bitlen s))"
      proof (rule bitlen_eqI)
        from rne_range(1)[OF s] b1 show "2 ^ (nat (bitlen s) - 1) \<le> ?r"
          by (simp add: nat_diff_distrib)
        show "?r < 2 ^ nat (bitlen s)" by (rule True)
        from b1 show "0 < nat (bitlen s)" by simp
      qed
      with b1 have "bitlen ?r = bitlen s" by simp
      then show ?thesis by (simp add: rne_dvd)
    next
      case False
      with rne_range(2)[OF s] have r: "?r = 2 ^ nat (bitlen s)" by simp
      have "bitlen ((2::int) ^ nat (bitlen s)) = bitlen (1 * 2 ^ nat (bitlen s))" by simp
      also have "\<dots> = bitlen 1 + int (nat (bitlen s))"
        by (rule bitlen_pow2) simp
      also have "\<dots> = bitlen s + 1"
        using b1 by (simp add: bitlen_alt_def)
      finally have "nat (bitlen ?r - 53) \<le> nat (bitlen s)"
        unfolding r by simp
      then have "(2::int) ^ nat (bitlen ?r - 53) dvd 2 ^ nat (bitlen s)"
        by (rule le_imp_power_dvd)
      then show ?thesis using r by simp
    qed
    from pos True dvd have "rnd ?r = Fin ?r"
      by (simp add: rnd_def Let_def rne_dvd_id)
    with eq pos show ?thesis by simp
  qed
qed

lemma rnd_mono:
  assumes "0 \<le> s" "s \<le> t"
  shows "rnd s \<le> rnd t"
proof (cases "s = 0")
  case True
  from assms have "nn (rnd t)" by (intro nn_rnd) simp
  with True show ?thesis by (simp add: nn_zero_le)
next
  case False
  with assms have s: "0 < s" and t: "0 < t" by simp_all
  let ?rs = "rne s (nat (bitlen s - 53))"
  let ?rt = "rne t (nat (bitlen t - 53))"
  have le: "?rs \<le> ?rt"
  proof (cases "bitlen s = bitlen t")
    case True
    with rne_mono[OF assms(2)] show ?thesis by simp
  next
    case False
    with bitlen_mono[OF s assms(2)] have "nat (bitlen s) \<le> nat (bitlen t - 1)" by simp
    then have "(2::int) ^ nat (bitlen s) \<le> 2 ^ nat (bitlen t - 1)"
      by (rule power_increasing) simp
    with rne_range(2)[OF s] rne_range(1)[OF t] show ?thesis by linarith
  qed
  then show ?thesis
    unfolding rnd_pos[OF s] rnd_pos[OF t] by simp
qed

subsection \<open>Sums of non-negative numbers\<close>

lemma nn_dadd: "nn a \<Longrightarrow> nn b \<Longrightarrow> nn (dadd a b)"
  by (cases a; cases b) (simp_all add: nn_rnd)

lemma dadd_mono:
  assumes "nn a" "nn a'" "nn b" "nn b'" "a \<le> a'" "b \<le> b'"
  shows "dadd a b \<le> dadd a' b'"
proof (cases "dadd a' b' = PInf")
  case True
  from nn_dadd[OF assms(1,3)] show ?thesis
    unfolding True by (cases "dadd a b") simp_all
next
  case False
  with assms(2,4) obtain x' y' where x': "a' = Fin x'" "b' = Fin y'"
    by (cases a'; cases b') simp_all
  with assms obtain x y where x: "a = Fin x" "b = Fin y"
    by (cases a; cases b) simp_all
  from assms x x' have "0 \<le> x + y" "x + y \<le> x' + y'" by simp_all
  then have "rnd (x + y) \<le> rnd (x' + y')" by (rule rnd_mono)
  with x x' show ?thesis by simp
qed

lemma dadd_zero_right: "nn a \<Longrightarrow> dadd a (Fin 0) = a"
  by (cases a) simp_all

lemma dadd_zero_left: "nn a \<Longrightarrow> dadd (Fin 0) a = a"
  by (cases a) simp_all

lemma nn_zero [simp]: "nn (Fin 0)"
  by simp

lemma dadd_ge_left:
  assumes "nn a" "nn b"
  shows "a \<le> dadd a b"
proof -
  have "dadd a (Fin 0) \<le> dadd a b"
    by (rule dadd_mono) (use assms in \<open>simp_all add: nn_zero_le\<close>)
  with assms(1) show ?thesis by (simp add: dadd_zero_right)
qed

lemma dadd_ge_right:
  assumes "nn a" "nn b"
  shows "b \<le> dadd a b"
proof -
  have "dadd (Fin 0) b \<le> dadd a b"
    by (rule dadd_mono) (use assms in \<open>simp_all add: nn_zero_le\<close>)
  with assms(2) show ?thesis by (simp add: dadd_zero_left)
qed

subsection \<open>Numbers written with an exponent\<close>

lemma finite_nonneg_dbl:
  assumes "0 \<le> m" "m < 2 ^ 53" "- 1074 \<le> e" "e \<le> 971"
  shows "finite_nonneg (dbl m e)"
proof -
  from assms(3,4) have "nat (e + 1074) \<le> 2045" by simp
  then have "(2::int) ^ nat (e + 1074) \<le> 2 ^ 2045"
    by (rule power_increasing) simp
  with assms(1,2) have "m * 2 ^ nat (e + 1074) < 2 ^ 53 * 2 ^ 2045"
    by (intro mult_less_le_imp_less) simp_all
  also have "(2::int) ^ 53 * 2 ^ 2045 = 2 ^ 2098"
    by (simp flip: power_add)
  finally have "\<bar>m\<bar> * 2 ^ nat (e + 1074) < 2 ^ 2098"
    using assms(1) by simp
  with assms(1,2) have "rnd (m * 2 ^ nat (e + 1074)) = Fin (m * 2 ^ nat (e + 1074))"
    by (intro rnd_exact) simp_all
  with assms(1) show ?thesis
    by (simp add: dbl_def)
qed

lemma nn_DBL_MAX: "nn DBL_MAX"
  unfolding DBL_MAX_def by (rule finite_nonneg_nn, rule finite_nonneg_dbl) simp_all

lemma DBL_MAX_less_PInf: "DBL_MAX < PInf"
  by (simp add: DBL_MAX_def dbl_def)

lemma rne_near: "\<bar>rne s k\<bar> \<le> \<bar>s\<bar> + 2 ^ k"
proof -
  have "s = (s div 2 ^ k) * 2 ^ k + s mod 2 ^ k" by (simp only: div_mult_mod_eq)
  moreover have "0 \<le> s mod (2 ^ k :: int)" "s mod 2 ^ k < (2 ^ k :: int)" by simp_all
  ultimately have "(s div 2 ^ k) * 2 ^ k \<le> s" "s < (s div 2 ^ k) * 2 ^ k + 2 ^ k"
    by linarith+
  with rne_lower[of s k] rne_upper[of s k] show ?thesis
    by (simp add: algebra_simps)
qed

lemma rne_twice:
  assumes "s \<noteq> 0"
  shows "\<bar>rne s (nat (bitlen \<bar>s\<bar> - 53))\<bar> \<le> 2 * \<bar>s\<bar>"
proof -
  from assms have pos: "0 < \<bar>s\<bar>" by simp
  have "nat (bitlen \<bar>s\<bar> - 53) \<le> nat (bitlen \<bar>s\<bar> - 1)" by simp
  then have "(2::int) ^ nat (bitlen \<bar>s\<bar> - 53) \<le> 2 ^ nat (bitlen \<bar>s\<bar> - 1)"
    by (rule power_increasing) simp
  also from bitlen_bounds[OF pos] have "\<dots> \<le> \<bar>s\<bar>" by simp
  finally show ?thesis
    using rne_near[of s "nat (bitlen \<bar>s\<bar> - 53)"] by linarith
qed

lemma rnd_scale:
  assumes "\<bar>s\<bar> * 2 ^ j < 2 ^ 2097"
  shows "rnd (s * 2 ^ j) = Fin (rne s (nat (bitlen \<bar>s\<bar> - 53)) * 2 ^ j)"
proof (cases "s = 0")
  case True
  then show ?thesis by simp
next
  case False
  then have pos: "0 < \<bar>s\<bar>" by simp
  let ?k = "nat (bitlen \<bar>s\<bar> - 53)"
  have a: "\<bar>s * 2 ^ j\<bar> = \<bar>s\<bar> * 2 ^ j"
    by (simp add: abs_mult)
  have b: "bitlen (\<bar>s\<bar> * 2 ^ j) = bitlen \<bar>s\<bar> + int j"
    by (rule bitlen_pow2) (rule pos)
  have r: "rne (s * 2 ^ j) (nat (bitlen \<bar>s\<bar> + int j - 53)) = rne s ?k * 2 ^ j"
  proof (cases "53 \<le> bitlen \<bar>s\<bar>")
    case True
    then have "nat (bitlen \<bar>s\<bar> + int j - 53) = ?k + j" by simp
    then show ?thesis by (simp only: rne_scale)
  next
    case False
    then have "nat (bitlen \<bar>s\<bar> + int j - 53) \<le> j" "?k = 0" by simp_all
    then have "(2::int) ^ nat (bitlen \<bar>s\<bar> + int j - 53) dvd 2 ^ j" "?k = 0"
      by (simp_all add: le_imp_power_dvd)
    then have "2 ^ nat (bitlen \<bar>s\<bar> + int j - 53) dvd s * 2 ^ j" "?k = 0"
      by (simp_all add: dvd_mult)
    then show ?thesis
      by (simp add: rne_dvd_id)
  qed
  have "\<bar>rne s ?k * 2 ^ j\<bar> = \<bar>rne s ?k\<bar> * 2 ^ j"
    by (simp add: abs_mult)
  also from rne_twice[OF False] have "\<dots> \<le> (2 * \<bar>s\<bar>) * 2 ^ j"
    by (rule mult_right_mono) simp
  also have "\<dots> = 2 * (\<bar>s\<bar> * 2 ^ j)" by simp
  also from assms have "\<dots> < 2 * 2 ^ 2097" by linarith
  also have "2 * 2 ^ 2097 = (2::int) ^ 2098" by simp
  finally have "\<bar>rne s ?k * 2 ^ j\<bar> < 2 ^ 2098" .
  then show ?thesis
    unfolding rnd_def Let_def a b r by (simp only: if_True)
qed

lemma dadd_dbl:
  assumes "\<bar>a + b\<bar> * 2 ^ nat (e + 1074) < 2 ^ 2097"
  shows "dadd (dbl a e) (dbl b e) = dbl (rne (a + b) (nat (bitlen \<bar>a + b\<bar> - 53))) e"
proof -
  have "dadd (dbl a e) (dbl b e) = rnd ((a + b) * 2 ^ nat (e + 1074))"
    by (simp add: dbl_def algebra_simps)
  also have "\<dots> = Fin (rne (a + b) (nat (bitlen \<bar>a + b\<bar> - 53)) * 2 ^ nat (e + 1074))"
    by (rule rnd_scale) (rule assms)
  finally show ?thesis by (simp only: dbl_def)
qed

lemma dless_dbl: "dless (dbl a e) (dbl b e) \<longleftrightarrow> a < b"
  by (simp add: dbl_def)

lemma dbl_eq_iff: "dbl a e = dbl b e \<longleftrightarrow> a = b"
  by (simp add: dbl_def)

lemma DBL_MAX_shift:
  assumes "- 1074 \<le> e" "e \<le> 971"
  shows "DBL_MAX = dbl ((2 ^ 53 - 1) * 2 ^ nat (971 - e)) e"
proof -
  from assms have "nat (971 - e) + nat (e + 1074) = 2045" by simp
  then have "(2::int) ^ nat (971 - e) * 2 ^ nat (e + 1074) = 2 ^ 2045"
    by (simp only: flip: power_add)
  then have "((2 ^ 53 - 1) * 2 ^ nat (971 - e)) * 2 ^ nat (e + 1074) = (2 ^ 53 - 1) * (2::int) ^ 2045"
    by (simp only: mult.assoc)
  then show ?thesis
    by (simp only: DBL_MAX_def dbl_def) simp
qed

lemma dless_dbl_MAX:
  assumes "- 1074 \<le> e" "e \<le> 971"
  shows "dless (dbl a e) DBL_MAX \<longleftrightarrow> a < (2 ^ 53 - 1) * 2 ^ nat (971 - e)"
  unfolding DBL_MAX_shift[OF assms] by (rule dless_dbl)

lemma dbl_zero: "Fin 0 = dbl 0 e"
  by (simp add: dbl_def)

lemma val_dbl:
  assumes "- 1074 \<le> e" "e \<le> 0"
  shows "val (dbl m e) = real_of_int m / 2 ^ nat (- e)"
proof -
  from assms have "nat (e + 1074) + nat (- e) = 1074" by simp
  then have p: "(2::real) ^ 1074 = 2 ^ nat (e + 1074) * 2 ^ nat (- e)"
    by (simp only: flip: power_add)
  have "real_of_int (m * 2 ^ nat (e + 1074)) / (2 ^ nat (e + 1074) * 2 ^ nat (- e)) =
        real_of_int m / 2 ^ nat (- e)"
    by simp
  then show ?thesis
    by (simp only: dbl_def val.simps p)
qed

lemma bitlen_mantissa: "bitlen (2 ^ 53 - 1) = 53"
  using bitlen_eqI[of 53 "2 ^ 53 - 1"] by simp

lemma DBL_MAX_overflow: "dadd DBL_MAX DBL_MAX = PInf"
proof -
  let ?s = "(2 ^ 53 - 1) * 2 ^ 2046 :: int"
  have s: "0 < ?s" by simp
  have b: "bitlen ?s = 2099"
    using bitlen_pow2[of "2 ^ 53 - 1" 2046] bitlen_mantissa by simp
  from rne_range(1)[OF s] have "\<not> rne ?s (nat (bitlen ?s - 53)) < 2 ^ 2098"
    unfolding b by simp
  with rnd_pos[OF s] have "rnd ?s = PInf" by (simp only: if_False)
  moreover have "dadd DBL_MAX DBL_MAX = rnd ?s"
    by (simp add: DBL_MAX_def dbl_def)
  ultimately show ?thesis by simp
qed

subsection \<open>Evaluation on numbers of moderate size\<close>

lemma replicate_numeral: "replicate (numeral k) x = x # replicate (pred_numeral k) x"
  by (simp add: numeral_eq_Suc)

lemma drop_small: "x < 2 ^ 53 \<Longrightarrow> nat (bitlen x - 53) = 0"
  using bitlen_le_iff_power[of x 53] by simp

lemma drop_binade:
  assumes "2 ^ (52 + k) \<le> x" "x < 2 ^ (53 + k)"
  shows "nat (bitlen x - 53) = k"
proof -
  have "bitlen x = int (53 + k)"
    by (rule bitlen_eqI) (use assms in simp_all)
  then show ?thesis by simp
qed

lemma drop_eval:
  assumes "x < 2 ^ 61"
  shows "nat (bitlen x - 53) =
    (if x < 2 ^ 53 then 0 else if x < 2 ^ 54 then 1 else if x < 2 ^ 55 then 2
     else if x < 2 ^ 56 then 3 else if x < 2 ^ 57 then 4 else if x < 2 ^ 58 then 5
     else if x < 2 ^ 59 then 6 else if x < 2 ^ 60 then 7 else 8)"
  using assms drop_small[of x] drop_binade[of 0 x] drop_binade[of 1 x] drop_binade[of 2 x]
    drop_binade[of 3 x] drop_binade[of 4 x] drop_binade[of 5 x] drop_binade[of 6 x]
    drop_binade[of 7 x] drop_binade[of 8 x]
  by (simp del: power_numeral add: not_less)

lemma dadd_eval:
  assumes "- 1074 \<le> e" "e \<le> 900" "\<bar>a + b\<bar> < 2 ^ 61"
  shows "dadd (dbl a e) (dbl b e) =
    dbl (rne (a + b)
      (if \<bar>a + b\<bar> < 2 ^ 53 then 0 else if \<bar>a + b\<bar> < 2 ^ 54 then 1 else if \<bar>a + b\<bar> < 2 ^ 55 then 2
       else if \<bar>a + b\<bar> < 2 ^ 56 then 3 else if \<bar>a + b\<bar> < 2 ^ 57 then 4
       else if \<bar>a + b\<bar> < 2 ^ 58 then 5 else if \<bar>a + b\<bar> < 2 ^ 59 then 6
       else if \<bar>a + b\<bar> < 2 ^ 60 then 7 else 8)) e"
proof -
  from assms(1,2) have "nat (e + 1074) \<le> 1974" by simp
  then have "(2::int) ^ nat (e + 1074) \<le> 2 ^ 1974"
    by (rule power_increasing) simp
  with assms(3) have "\<bar>a + b\<bar> * 2 ^ nat (e + 1074) < 2 ^ 61 * 2 ^ 1974"
    by (intro mult_less_le_imp_less) simp_all
  also have "(2::int) ^ 61 * 2 ^ 1974 \<le> 2 ^ 2097"
    by (simp flip: power_add)
  finally have "\<bar>a + b\<bar> * 2 ^ nat (e + 1074) < 2 ^ 2097" .
  from dadd_dbl[OF this] show ?thesis
    unfolding drop_eval[OF assms(3)] .
qed

lemma dless_MAX_eval:
  assumes "- 1074 \<le> e" "e \<le> 900" "a < 2 ^ 61"
  shows "dless (dbl a e) DBL_MAX"
proof -
  from assms(1,2) have "nat (971 - e) \<ge> 71" by simp
  then have "(2::int) ^ 71 \<le> 2 ^ nat (971 - e)"
    by (rule power_increasing) simp
  then have "(2::int) ^ 61 \<le> 2 ^ nat (971 - e)" 
    by (rule order_trans[rotated]) simp
  also have "\<dots> \<le> (2 ^ 53 - 1) * 2 ^ nat (971 - e)"
    by simp
  finally have "a < (2 ^ 53 - 1) * 2 ^ nat (971 - e)"
    using assms(3) by simp
  with assms(1,2) show ?thesis
    by (simp only: dless_dbl_MAX)
qed

section \<open>The table builder: loop invariants\<close>

subsection \<open>Checked indexing on tables of the declared size\<close>

lemma square_row: "square n t \<Longrightarrow> i < n + 2 \<Longrightarrow> length (t ! i) = n + 2"
  by (metis nth_mem square_def)

lemma idx_Some: "k < length v \<Longrightarrow> idx v k = Some (v ! k)"
  by (simp add: idx_def)

lemma idx_None: "length v \<le> k \<Longrightarrow> idx v k = None"
  by (simp add: idx_def)

lemma idx2_square: "square n t \<Longrightarrow> i < n + 2 \<Longrightarrow> j < n + 2 \<Longrightarrow> idx2 t i j = Some (t ! i ! j)"
  by (simp add: idx2_def idx_def square_row) (simp add: square_def)

lemma upd2_square: "square n t \<Longrightarrow> i < n + 2 \<Longrightarrow> j < n + 2 \<Longrightarrow> upd2 t i j x = Some (set2 t i j x)"
  by (simp add: upd2_def idx_def square_row set2_def) (simp add: square_def)

lemma square_set2:
  assumes "square n t"
  shows "square n (set2 t i j x)"
proof (cases "i < length t")
  case True
  have "length row = n + 2" if "row \<in> set (t[i := (t ! i)[j := x]])" for row
  proof -
    from that have "row = (t ! i)[j := x] \<or> row \<in> set t"
      using set_update_subset_insert[of t i] by auto
    with assms True show ?thesis
      by (auto simp: square_def)
  qed
  with assms show ?thesis
    by (simp add: square_def set2_def)
next
  case False
  then have "t[i := (t ! i)[j := x]] = t"
    by (simp add: list_update_beyond)
  with assms show ?thesis
    by (simp add: set2_def)
qed

lemma nth_set2:
  "square n t \<Longrightarrow> i < n + 2 \<Longrightarrow> j < n + 2 \<Longrightarrow>
   set2 t i j x ! a ! b = (if a = i \<and> b = j then x else t ! a ! b)"
  by (auto simp: square_def set2_def nth_list_update)

lemma set2_same: "square n t \<Longrightarrow> i < n + 2 \<Longrightarrow> j < n + 2 \<Longrightarrow> set2 t i j (t ! i ! j) = t"
  by (simp add: set2_def)

lemma set2_set2: "square n t \<Longrightarrow> i < n + 2 \<Longrightarrow> set2 (set2 t i j x) i j y = set2 t i j y"
  by (simp add: set2_def square_def)

lemma resize_Nil: "resize k x [] = replicate k x"
  by (simp add: resize_def)

lemma square_fresh: "square n (resize (n + 2) (replicate (n + 2) x) [])"
  unfolding square_def resize_Nil by simp

lemma nth_fresh_gen: "i < k \<Longrightarrow> j < k \<Longrightarrow> resize k (replicate k x) [] ! i ! j = x"
  unfolding resize_Nil by simp

lemma nth_fresh: "i < n + 2 \<Longrightarrow> j < n + 2 \<Longrightarrow> resize (n + 2) (replicate (n + 2) x) [] ! i ! j = x"
  by (rule nth_fresh_gen)

lemma for_each_append:
  "for_each (ks @ ks') body s = for_each ks body s \<bind> for_each ks' body"
  by (induction ks arbitrary: s) (simp_all split: Option.bind_split)

lemma for_each_upt:
  assumes "a \<le> b" and "P a s"
    and "\<And>k s. a \<le> k \<Longrightarrow> k < b \<Longrightarrow> P k s \<Longrightarrow> \<exists>s'. body k s = Some s' \<and> P (Suc k) s'"
  shows "\<exists>s'. for_each [a..<b] body s = Some s' \<and> P b s'"
  using assms
proof (induction b)
  case 0
  then show ?case by simp
next
  case (Suc b)
  show ?case
  proof (cases "a = Suc b")
    case True
    with Suc.prems(2) show ?thesis by simp
  next
    case False
    with Suc.prems(1) have ab: "a \<le> b" by simp
    have "\<exists>s'. for_each [a..<b] body s = Some s' \<and> P b s'"
    proof (rule Suc.IH[OF ab Suc.prems(2)])
      fix k s assume "a \<le> k" "k < b" "P k s"
      then show "\<exists>s'. body k s = Some s' \<and> P (Suc k) s'"
        using Suc.prems(3)[of k s] by simp
    qed
    then obtain s1 where s1: "for_each [a..<b] body s = Some s1" "P b s1" by blast
    from Suc.prems(3)[OF ab _ s1(2)] obtain s2 where "body b s1 = Some s2" "P (Suc b) s2" by auto
    with s1 ab show ?thesis by (simp add: for_each_append)
  qed
qed

lemma for_each_None:
  "k \<in> set ks \<Longrightarrow> (\<And>s. body k s = None) \<Longrightarrow> for_each ks body s = None"
  by (induction ks arbitrary: s) (auto simp: Option.bind_eq_None_conv)

subsection \<open>The scan over the candidate roots\<close>

lemma tsquare_store: "tsquare n t \<Longrightarrow> tsquare n (store t i j mr)"
  by (simp add: tsquare_def store_def square_set2)

lemma w_store [simp]: "w_tab (store t i j mr) = w_tab t"
  by (simp add: store_def)

lemma e_store:
  "tsquare n t \<Longrightarrow> i < n + 2 \<Longrightarrow> j < n + 2 \<Longrightarrow>
   e_tab (store t i j mr) ! a ! b = (if a = i \<and> b = j then fst mr else e_tab t ! a ! b)"
  by (simp add: store_def tsquare_def nth_set2[where n=n])

lemma root_store:
  "tsquare n t \<Longrightarrow> i < n + 2 \<Longrightarrow> j < n + 2 \<Longrightarrow>
   root_tab (store t i j mr) ! a ! b = (if a = i \<and> b = j then snd mr else root_tab t ! a ! b)"
  by (simp add: store_def tsquare_def nth_set2[where n=n])

lemma store_store:
  "tsquare n t \<Longrightarrow> i < n + 2 \<Longrightarrow> store (store t i j mr) i j mr' = store t i j mr'"
  by (simp add: store_def tsquare_def set2_set2[where n=n])

lemma store_same:
  "tsquare n t \<Longrightarrow> i < n + 2 \<Longrightarrow> j < n + 2 \<Longrightarrow>
   store t i j (e_tab t ! i ! j, root_tab t ! i ! j) = t"
  by (simp add: store_def tsquare_def set2_same[where n=n])

lemma try_root_store:
  assumes "tsquare n t" "i < n + 2" "j < n + 2" "r \<le> n"
  shows "try_root i j r t =
         Some (store t i j (scan_step (cand t i j) (e_tab t ! i ! j, root_tab t ! i ! j) r))"
proof -
  from assms have sq: "square n (e_tab t)" "square n (w_tab t)" "square n (root_tab t)"
    by (simp_all add: tsquare_def)
  from assms have b: "r - 1 < n + 2" "r + 1 < n + 2" by simp_all
  show ?thesis
  proof (cases "dless (cand t i j r) (e_tab t ! i ! j)")
    case True
    then show ?thesis
      unfolding try_root_def
      using assms(2,3) b
      by (simp add: idx2_square[OF sq(1)] idx2_square[OF sq(2)] upd2_square[OF sq(1)]
          upd2_square[OF sq(3)] scan_step_def store_def cand_def)
  next
    case False
    then show ?thesis
      unfolding try_root_def
      using assms(2,3) b
      by (simp add: idx2_square[OF sq(1)] idx2_square[OF sq(2)] scan_step_def
          store_same[OF assms(1-3)] cand_def)
  qed
qed

lemma cand_store:
  assumes "tsquare n t" "i < n + 2" "j < n + 2" "i \<le> r" "r \<le> j" "1 \<le> i"
  shows "cand (store t i j mr) i j r = cand t i j r"
proof -
  from assms have "r - 1 \<noteq> j" "r + 1 \<noteq> i" by simp_all
  then show ?thesis
    by (simp add: cand_def e_store[OF assms(1-3)])
qed

lemma scan_loop:
  assumes "1 \<le> i" "j \<le> n" "\<forall>r \<in> set rs. i \<le> r \<and> r \<le> j" "tsquare n t"
  shows "for_each rs (try_root i j) t =
         Some (store t i j (foldl (scan_step (cand t i j)) (e_tab t ! i ! j, root_tab t ! i ! j) rs))"
  using assms(3,4)
proof (induction rs arbitrary: t)
  case Nil
  then show ?case
  proof (cases "i \<le> n + 1")
    case True
    with Nil assms(2) show ?thesis by (simp add: store_same)
  next
    case False
    then have "set2 (e_tab t) i j x = e_tab t" "set2 (root_tab t) i j y = root_tab t" for x y
      using Nil by (simp_all add: set2_def tsquare_def square_def list_update_beyond)
    then show ?thesis by (simp add: store_def)
  qed
next
  case (Cons r rs)
  then have r: "i \<le> r" "r \<le> j" by simp_all
  with assms have b: "i < n + 2" "j < n + 2" "r \<le> n" by simp_all
  let ?mr = "scan_step (cand t i j) (e_tab t ! i ! j, root_tab t ! i ! j) r"
  let ?t1 = "store t i j ?mr"
  have sq1: "tsquare n ?t1" using Cons.prems(2) by (rule tsquare_store)
  have step: "try_root i j r t = Some ?t1"
    by (rule try_root_store[OF Cons.prems(2) b])
  have cur: "(e_tab ?t1 ! i ! j, root_tab ?t1 ! i ! j) = ?mr"
    by (simp add: e_store[OF Cons.prems(2) b(1,2)] root_store[OF Cons.prems(2) b(1,2)])
  have fold_eq: "foldl (scan_step (cand ?t1 i j)) ?mr rs = foldl (scan_step (cand t i j)) ?mr rs"
  proof (rule foldl_cong[OF refl refl])
    fix a x assume "x \<in> set rs"
    with Cons.prems(1) have "i \<le> x" "x \<le> j" by simp_all
    then have "cand ?t1 i j x = cand t i j x"
      using cand_store[OF Cons.prems(2) b(1,2) _ _ assms(1)] by simp
    then show "scan_step (cand ?t1 i j) a x = scan_step (cand t i j) a x"
      by (simp add: scan_step_def)
  qed
  have "for_each rs (try_root i j) ?t1 =
        Some (store ?t1 i j (foldl (scan_step (cand ?t1 i j)) (e_tab ?t1 ! i ! j, root_tab ?t1 ! i ! j) rs))"
    using Cons.prems(1) by (intro Cons.IH[OF _ sq1]) simp
  then show ?case
    by (simp add: step cur fold_eq store_store[OF Cons.prems(2) b(1)])
qed

subsection \<open>One cell\<close>

lemma cell_ok_frame:
  assumes "cell_ok p q t i j"
    and "w_tab t' ! i ! j = w_tab t ! i ! j" "w_tab t' ! i ! (j - 1) = w_tab t ! i ! (j - 1)"
    and "e_tab t' ! i ! j = e_tab t ! i ! j" "root_tab t' ! i ! j = root_tab t ! i ! j"
    and "\<And>r. i \<le> r \<Longrightarrow> r \<le> j \<Longrightarrow>
           e_tab t' ! i ! (r - 1) = e_tab t ! i ! (r - 1) \<and> e_tab t' ! (r + 1) ! j = e_tab t ! (r + 1) ! j"
  shows "cell_ok p q t' i j"
proof -
  have "foldl (scan_step (cand t' i j)) (DBL_MAX, 0) [i..<j + 1] =
        foldl (scan_step (cand t i j)) (DBL_MAX, 0) [i..<j + 1]"
  proof (rule foldl_cong[OF refl refl])
    fix a x assume "x \<in> set [i..<j + 1]"
    then have "i \<le> x" "x \<le> j" by auto
    from assms(6)[OF this] assms(2) have "cand t' i j x = cand t i j x"
      by (simp add: cand_def)
    then show "scan_step (cand t' i j) a x = scan_step (cand t i j) a x"
      by (simp add: scan_step_def)
  qed
  with assms(1-5) show ?thesis
    by (simp add: cell_ok_def)
qed

lemma fill_cell_store:
  assumes sq: "tsquare n t" and k: "1 \<le> k" "1 \<le> l" "k + l - 1 \<le> n"
    and len: "n < length p" "n < length q"
  defines "j \<equiv> k + l - 1"
  defines "t0 \<equiv> t\<lparr>e_tab := set2 (e_tab t) k j DBL_MAX,
                     w_tab := set2 (w_tab t) k j (dadd (dadd (w_tab t ! k ! (j - 1)) (p ! j)) (q ! j))\<rparr>"
  shows "fill_cell p q l k t =
         Some (store t0 k j (foldl (scan_step (cand t0 k j)) (DBL_MAX, root_tab t ! k ! j) [k..<j + 1]))"
proof -
  from sq have sqs: "square n (e_tab t)" "square n (w_tab t)" "square n (root_tab t)"
    by (simp_all add: tsquare_def)
  from k have b: "k < n + 2" "j < n + 2" "j - 1 < n + 2" "j \<le> n" "k \<le> j"
    by (simp_all add: j_def)
  have sq0: "tsquare n t0"
    using sqs by (simp add: t0_def tsquare_def square_set2)
  have cur: "e_tab t0 ! k ! j = DBL_MAX" "root_tab t0 ! k ! j = root_tab t ! k ! j"
    using b by (simp_all add: t0_def nth_set2[OF sqs(1)])
  have loop: "for_each [k..<j + 1] (try_root k j) t0 =
        Some (store t0 k j (foldl (scan_step (cand t0 k j)) (e_tab t0 ! k ! j, root_tab t0 ! k ! j) [k..<j + 1]))"
    by (rule scan_loop[OF k(1) b(4) _ sq0]) auto
  have jl: "k + l - 1 = j" by (simp add: j_def)
  have "fill_cell p q l k t = for_each [k..<j + 1] (try_root k j) t0"
    unfolding fill_cell_def Let_def jl using b len
    by (simp add: upd2_square[OF sqs(1)] upd2_square[OF sqs(2)] idx2_square[OF sqs(2)]
        idx_Some t0_def)
  with loop cur show ?thesis by simp
qed

lemma fill_cell_filled:
  assumes f: "filled p q n l k t" and k: "1 \<le> k" "1 \<le> l" "k + l - 1 \<le> n"
    and len: "n < length p" "n < length q"
  shows "\<exists>t'. fill_cell p q l k t = Some t' \<and> filled p q n l (Suc k) t'"
proof -
  define j where "j = k + l - 1"
  define t0 where "t0 = t\<lparr>e_tab := set2 (e_tab t) k j DBL_MAX,
                     w_tab := set2 (w_tab t) k j (dadd (dadd (w_tab t ! k ! (j - 1)) (p ! j)) (q ! j))\<rparr>"
  define mr where "mr = foldl (scan_step (cand t0 k j)) (DBL_MAX, root_tab t ! k ! j) [k..<j + 1]"
  define t' where "t' = store t0 k j mr"
  from f have sq: "tsquare n t" by (simp add: filled_def)
  then have sqs: "square n (e_tab t)" "square n (w_tab t)" "square n (root_tab t)"
    by (simp_all add: tsquare_def)
  from k have b: "k < n + 2" "j < n + 2" "j \<le> n" "k \<le> j" "j + 1 - k = l"
    by (simp_all add: j_def)
  have sq0: "tsquare n t0"
    using sqs by (simp add: t0_def tsquare_def square_set2)
  have run: "fill_cell p q l k t = Some t'"
    using fill_cell_store[OF sq k len] by (simp add: t'_def mr_def t0_def j_def)
  have sq': "tsquare n t'"
    unfolding t'_def using sq0 by (rule tsquare_store)
  have e0: "e_tab t0 ! a ! b = (if a = k \<and> b = j then DBL_MAX else e_tab t ! a ! b)" for a b
    using b by (simp add: t0_def nth_set2[OF sqs(1)])
  have r0: "root_tab t0 = root_tab t"
    by (simp add: t0_def)
  have e': "e_tab t' ! a ! b = (if a = k \<and> b = j then fst mr else e_tab t ! a ! b)" for a b
    using e_store[OF sq0 b(1,2), of mr a b] by (simp add: t'_def e0)
  have r': "root_tab t' ! a ! b = (if a = k \<and> b = j then snd mr else root_tab t ! a ! b)" for a b
    using root_store[OF sq0 b(1,2), of mr a b] by (simp add: t'_def r0)
  have w': "w_tab t' ! a ! b =
      (if a = k \<and> b = j then dadd (dadd (w_tab t ! k ! (j - 1)) (p ! j)) (q ! j) else w_tab t ! a ! b)" for a b
    using b by (simp add: t'_def t0_def nth_set2[OF sqs(2)])
  from f k b have undone: "root_tab t ! k ! j = 0"
    by (auto simp: filled_def done_cell_def dest!: spec[of _ k] spec[of _ j])
  have base: "base_ok q t' i" if "1 \<le> i" "i \<le> n + 1" for i
  proof -
    from f that have "base_ok q t i" by (simp add: filled_def)
    moreover from b that have "\<not> (i = k \<and> i - 1 = j)" by auto
    ultimately show ?thesis by (auto simp: base_ok_def e' w')
  qed
  have new: "cell_ok p q t' k j"
  proof -
    have "foldl (scan_step (cand t' k j)) (DBL_MAX, 0) [k..<j + 1] = mr"
      unfolding mr_def undone
    proof (rule foldl_cong[OF refl refl])
      fix a x assume "x \<in> set [k..<j + 1]"
      then have x: "k \<le> x" "x \<le> j" by auto
      have "cand t' k j x = cand t0 k j x"
        unfolding t'_def using cand_store[OF sq0 b(1,2) x k(1)] .
      then show "scan_step (cand t' k j) a x = scan_step (cand t0 k j) a x"
        by (simp add: scan_step_def)
    qed
    moreover have "j - 1 \<noteq> j" using b k by simp
    ultimately show ?thesis
      by (simp add: cell_ok_def e' r' w')
  qed
  have old: "cell_ok p q t' i i'" if "1 \<le> i" "i \<le> i'" "i' \<le> n" "done_cell l k i i'" for i i'
  proof -
    from f that have ok: "cell_ok p q t i i'" by (simp add: filled_def)
    from that b have ne: "\<not> (i = k \<and> i' = j)" "\<not> (i = k \<and> i' - 1 = j)"
      by (auto simp: done_cell_def)
    have sub: "\<not> (i = k \<and> r - 1 = j)" "\<not> (r + 1 = k \<and> i' = j)" if "i \<le> r" "r \<le> i'" for r
      using that \<open>done_cell l k i i'\<close> \<open>1 \<le> i\<close> b by (auto simp: done_cell_def)
    show ?thesis
      by (rule cell_ok_frame[OF ok]) (use ne sub in \<open>auto simp: e' r' w'\<close>)
  qed
  have rest: "root_tab t' ! i ! i' = 0"
    if "1 \<le> i" "i \<le> i'" "i' \<le> n" "\<not> done_cell l (Suc k) i i'" for i i'
  proof -
    from that b have "\<not> (i = k \<and> i' = j)" "\<not> done_cell l k i i'"
      by (auto simp: done_cell_def)
    with f that show ?thesis by (auto simp: filled_def r')
  qed
  have "filled p q n l (Suc k) t'"
    unfolding filled_def
  proof (intro conjI allI impI)
    show "tsquare n t'" by (rule sq')
  next
    fix i assume "1 \<le> i \<and> i \<le> n + 1"
    then show "base_ok q t' i" using base by simp
  next
    fix i i' assume c: "1 \<le> i \<and> i \<le> i' \<and> i' \<le> n"
    show "if done_cell l (Suc k) i i' then cell_ok p q t' i i' else root_tab t' ! i ! i' = 0"
    proof (cases "done_cell l (Suc k) i i'")
      case True
      then have "done_cell l k i i' \<or> (i = k \<and> i' = j)"
        using b c by (auto simp: done_cell_def)
      with True c old new show ?thesis by auto
    next
      case False
      with c rest show ?thesis by simp
    qed
  qed
  with run show ?thesis by blast
qed

subsection \<open>The three loops\<close>

lemma tsquare_fresh: "tsquare n (fresh n)"
  unfolding tsquare_def fresh_def tables.simps by (intro conjI square_fresh)

lemma root_fresh: "i < n + 2 \<Longrightarrow> j < n + 2 \<Longrightarrow> root_tab (fresh n) ! i ! j = 0"
  unfolding fresh_def tables.simps by (rule nth_fresh)

lemma base_case_step:
  assumes "tsquare n t" "1 \<le> i" "i \<le> n + 1" "n < length q"
  shows "base_case q i t =
         Some (t\<lparr>e_tab := set2 (e_tab t) i (i - 1) (q ! (i - 1)),
                 w_tab := set2 (w_tab t) i (i - 1) (q ! (i - 1))\<rparr>)"
proof -
  from assms have sqs: "square n (e_tab t)" "square n (w_tab t)"
    by (simp_all add: tsquare_def)
  from assms have "i < n + 2" "i - 1 < n + 2" "i - 1 < length q" by simp_all
  then show ?thesis
    unfolding base_case_def
    by (simp add: idx_Some upd2_square[OF sqs(1)] upd2_square[OF sqs(2)])
qed

lemma base_loop:
  assumes "n < length q" "tsquare n t"
  shows "\<exists>t'. for_each [1..<n + 1 + 1] (base_case q) t = Some t' \<and>
           tsquare n t' \<and> root_tab t' = root_tab t \<and> (\<forall>i. 1 \<le> i \<and> i \<le> n + 1 \<longrightarrow> base_ok q t' i)"
proof -
  let ?P = "\<lambda>k t'. tsquare n t' \<and> root_tab t' = root_tab t \<and> (\<forall>i. 1 \<le> i \<and> i < k \<longrightarrow> base_ok q t' i)"
  have "\<exists>t'. for_each [1..<n + 1 + 1] (base_case q) t = Some t' \<and> ?P (n + 1 + 1) t'"
  proof (rule for_each_upt)
    show "1 \<le> n + 1 + 1" by simp
    show "?P 1 t" using assms(2) by simp
  next
    fix k s assume k: "1 \<le> k" "k < n + 1 + 1" and P: "?P k s"
    then have sq: "tsquare n s" by simp
    then have sqs: "square n (e_tab s)" "square n (w_tab s)"
      by (simp_all add: tsquare_def)
    let ?s' = "s\<lparr>e_tab := set2 (e_tab s) k (k - 1) (q ! (k - 1)),
                 w_tab := set2 (w_tab s) k (k - 1) (q ! (k - 1))\<rparr>"
    from k have b: "k < n + 2" "k - 1 < n + 2" by simp_all
    have run: "base_case q k s = Some ?s'"
      using k by (intro base_case_step[OF sq _ _ assms(1)]) simp_all
    have "tsquare n ?s'"
      using sq by (simp add: tsquare_def square_set2)
    moreover have "root_tab ?s' = root_tab t" using P by simp
    moreover have "base_ok q ?s' i" if "1 \<le> i" "i < Suc k" for i
    proof (cases "i = k")
      case True
      then show ?thesis
        using b by (simp add: base_ok_def nth_set2[OF sqs(1)] nth_set2[OF sqs(2)])
    next
      case False
      with that P have "base_ok q s i" by simp
      with False show ?thesis
        using b by (simp add: base_ok_def nth_set2[OF sqs(1)] nth_set2[OF sqs(2)])
    qed
    ultimately show "\<exists>s'. base_case q k s = Some s' \<and> ?P (Suc k) s'"
      using run by blast
  qed
  then show ?thesis by auto
qed

lemma inner_loop:
  assumes "filled p q n l 1 t" "1 \<le> l" "l \<le> n" "n < length p" "n < length q"
  shows "\<exists>t'. for_each [1..<n - l + 1 + 1] (fill_cell p q l) t = Some t' \<and> filled p q n (Suc l) 1 t'"
proof -
  have "\<exists>t'. for_each [1..<n - l + 1 + 1] (fill_cell p q l) t = Some t' \<and> filled p q n l (n - l + 1 + 1) t'"
  proof (rule for_each_upt)
    show "1 \<le> n - l + 1 + 1" by simp
    show "filled p q n l 1 t" by (rule assms(1))
  next
    fix k s assume k: "1 \<le> k" "k < n - l + 1 + 1" and f: "filled p q n l k s"
    from k assms(2,3) have "k + l - 1 \<le> n" by simp
    from fill_cell_filled[OF f k(1) assms(2) this assms(4,5)]
    show "\<exists>s'. fill_cell p q l k s = Some s' \<and> filled p q n l (Suc k) s'" .
  qed
  then obtain t' where t': "for_each [1..<n - l + 1 + 1] (fill_cell p q l) t = Some t'"
    "filled p q n l (n - l + 1 + 1) t'" by blast
  have "done_cell (Suc l) 1 i j = done_cell l (n - l + 1 + 1) i j" if "1 \<le> i" "i \<le> j" "j \<le> n" for i j
    using that assms(2,3) by (auto simp: done_cell_def)
  with t'(2) have "filled p q n (Suc l) 1 t'"
    by (simp add: filled_def)
  with t'(1) show ?thesis by blast
qed

lemma outer_loop:
  assumes "filled p q n 1 1 t" "n = 0 \<or> n < length p" "n < length q"
  shows "\<exists>t'. for_each [1..<n + 1] (\<lambda>l. for_each [1..<n - l + 1 + 1] (fill_cell p q l)) t = Some t' \<and>
           final p q n t'"
proof -
  have "\<exists>t'. for_each [1..<n + 1] (\<lambda>l. for_each [1..<n - l + 1 + 1] (fill_cell p q l)) t = Some t' \<and>
           filled p q n (n + 1) 1 t'"
  proof (rule for_each_upt)
    show "1 \<le> n + 1" by simp
    show "filled p q n 1 1 t" by (rule assms(1))
  next
    fix l s assume l: "1 \<le> l" "l < n + 1" and f: "filled p q n l 1 s"
    with assms(2) have "n < length p" "l \<le> n" by auto
    from inner_loop[OF f l(1) this(2,1) assms(3)]
    show "\<exists>s'. for_each [1..<n - l + 1 + 1] (fill_cell p q l) s = Some s' \<and> filled p q n (Suc l) 1 s'" .
  qed
  then obtain t' where t':
    "for_each [1..<n + 1] (\<lambda>l. for_each [1..<n - l + 1 + 1] (fill_cell p q l)) t = Some t'"
    "filled p q n (n + 1) 1 t'" by blast
  have "done_cell (n + 1) 1 i j" if "1 \<le> i" "i \<le> j" "j \<le> n" for i j
    using that by (auto simp: done_cell_def)
  with t'(2) have "final p q n t'"
    by (simp add: filled_def final_def)
  with t'(1) show ?thesis by blast
qed

lemma optimalBST_final:
  assumes "n = 0 \<or> n < length p" "n < length q"
  shows "\<exists>t. optimalBST p q n [] [] [] = Some t \<and> final p q n t"
proof -
  from base_loop[OF assms(2) tsquare_fresh] obtain t1 where t1:
    "for_each [1..<n + 1 + 1] (base_case q) (fresh n) = Some t1" "tsquare n t1"
    "root_tab t1 = root_tab (fresh n)" "\<forall>i. 1 \<le> i \<and> i \<le> n + 1 \<longrightarrow> base_ok q t1 i"
    by blast
  have "\<not> done_cell 1 1 i j" if "1 \<le> i" "i \<le> j" for i j
    using that by (auto simp: done_cell_def)
  with t1 have "filled p q n 1 1 t1"
    by (simp add: filled_def root_fresh)
  from outer_loop[OF this assms] obtain t where t:
    "for_each [1..<n + 1] (\<lambda>l. for_each [1..<n - l + 1 + 1] (fill_cell p q l)) t1 = Some t"
    "final p q n t" by blast
  have "optimalBST p q n [] [] [] = Some t"
    unfolding optimalBST_def Let_def fresh_def[symmetric]
    by (simp only: t1(1) t(1) Option.bind.simps)
  with t(2) show ?thesis by blast
qed

section \<open>Weights, base cases, inputs\<close>

lemma final_weight:
  assumes "final p q n t"
  shows "1 \<le> i \<Longrightarrow> i \<le> j + 1 \<Longrightarrow> j \<le> n \<Longrightarrow> w_tab t ! i ! j = weight_sum p q i j"
proof (induction j)
  case 0
  then have "i = 1" by simp
  moreover from assms have "base_ok q t 1" by (simp add: final_def)
  ultimately show ?case by (simp add: base_ok_def weight_sum_def)
next
  case (Suc j)
  show ?case
  proof (cases "i = Suc j + 1")
    case True
    with assms Suc.prems have "base_ok q t i" by (simp add: final_def)
    with True show ?thesis by (simp add: base_ok_def weight_sum_def)
  next
    case False
    with Suc.prems have ij: "i \<le> Suc j" "i \<le> j + 1" "j \<le> n" by simp_all
    with assms Suc.prems have "cell_ok p q t i (Suc j)" by (simp add: final_def)
    then have "w_tab t ! i ! Suc j = dadd (dadd (w_tab t ! i ! j) (p ! Suc j)) (q ! Suc j)"
      by (simp add: cell_ok_def)
    also have "w_tab t ! i ! j = weight_sum p q i j"
      by (rule Suc.IH[OF Suc.prems(1) ij(2,3)])
    finally show ?thesis using ij by (simp add: weight_sum_def)
  qed
qed

lemma rounding_run:
  "optimalBST [Fin 0, dbl 9007199254740992 (- 53)] [dbl 1 (- 53), dbl 1 (- 53)] 1 [] [] [] =
     Some rounding_tables"
  by (simp add: optimalBST_def resize_def base_case_def fill_cell_def try_root_def
      idx_def idx2_def upd2_def upt_conv_Cons Let_def replicate_numeral rounding_tables_def
      dadd_eval dless_dbl dless_MAX_eval dbl_eq_iff rne_def)

text \<open>
  Claim C3, as amended.  On every interval \<open>1 \<le> i \<le> j \<le> n\<close> the weight table holds
  the sum \<open>q[i-1] + p[i] + q[i] + \<dots> + p[j] + q[j]\<close> as binary64 computes it from the left,
  each addition rounded to nearest; the loop reaches it incrementally as
  \<open>w[i][j-1] + p[j] + q[j]\<close>.
\<close>

theorem weight_rounded_sum:
  assumes "n < length p" "n < length q" "1 \<le> i" "i \<le> j" "j \<le> n"
  shows "\<exists>t. optimalBST p q n [] [] [] = Some t \<and> w_tab t ! i ! j = weight_sum p q i j"
proof -
  from optimalBST_final[of n p q] assms(1,2) obtain t where
    t: "optimalBST p q n [] [] [] = Some t" "final p q n t" by blast
  from final_weight[OF t(2) assms(3) _ assms(5)] assms(4) t(1) show ?thesis by simp
qed

theorem weight_rounded_sum_witness:
  "(2::nat) < length [Fin 0, dbl 2 (- 3), dbl 1 (- 3)] \<and>
   (2::nat) < length [dbl 1 (- 3), dbl 2 (- 3), dbl 2 (- 3)] \<and>
   (1::nat) \<le> 1 \<and> (1::nat) \<le> 2 \<and> (2::nat) \<le> 2 \<and>
   (\<exists>t. optimalBST [Fin 0, dbl 2 (- 3), dbl 1 (- 3)] [dbl 1 (- 3), dbl 2 (- 3), dbl 2 (- 3)] 2 [] [] [] = Some t \<and>
      w_tab t ! 1 ! 2 = dbl 8 (- 3))"
proof -
  have "weight_sum [Fin 0, dbl 2 (- 3), dbl 1 (- 3)] [dbl 1 (- 3), dbl 2 (- 3), dbl 2 (- 3)] 1 2 =
        dbl 8 (- 3)"
    by (simp add: weight_sum_def upt_conv_Cons dadd_eval rne_def)
  with weight_rounded_sum[of 2 "[Fin 0, dbl 2 (- 3), dbl 1 (- 3)]"
      "[dbl 1 (- 3), dbl 2 (- 3), dbl 2 (- 3)]" 1 2] show ?thesis
    by simp
qed

text \<open>
  The claim as stated fails for \<open>p = [_, 1]\<close>, \<open>q = [2\<^sup>-\<^sup>5\<^sup>3, 2\<^sup>-\<^sup>5\<^sup>3]\<close>, \<open>n = 1\<close>: both
  additions round back to \<open>1\<close>, so \<open>w[1][1] = 1\<close>, while the sum of the three numbers
  is \<open>1 + 2\<^sup>-\<^sup>5\<^sup>2\<close>.
\<close>

theorem weight_closed_form_counterexample:
  "optimalBST [Fin 0, dbl 9007199254740992 (- 53)] [dbl 1 (- 53), dbl 1 (- 53)] 1 [] [] [] =
     Some rounding_tables \<and>
   val (dbl 9007199254740992 (- 53)) = 1 \<and>
   val (dbl 1 (- 53)) = 1 / 2 ^ 53 \<and>
   val (w_tab rounding_tables ! 1 ! 1) = 1 \<and>
   (\<Sum>k = 1..1. val ([Fin 0, dbl 9007199254740992 (- 53)] ! k)) +
     (\<Sum>k = 1 - 1..1. val ([dbl 1 (- 53), dbl 1 (- 53)] ! k)) = 1 + 1 / 2 ^ 52"
proof (intro conjI)
  show "optimalBST [Fin 0, dbl 9007199254740992 (- 53)] [dbl 1 (- 53), dbl 1 (- 53)] 1 [] [] [] =
     Some rounding_tables"
    by (rule rounding_run)
qed (simp_all add: rounding_tables_def val_dbl)

text \<open>
  Claim C4.  After the run, every empty interval \<open>[i, i-1]\<close> with \<open>i\<close> in \<open>1..n+1\<close>
  holds \<open>e[i][i-1] = q[i-1]\<close> and \<open>w[i][i-1] = q[i-1]\<close>: the later loops never write
  these cells again.
\<close>

theorem base_cases:
  assumes "n = 0 \<or> n < length p" "n < length q"
  shows "\<exists>t. optimalBST p q n [] [] [] = Some t \<and>
           (\<forall>i. 1 \<le> i \<and> i \<le> n + 1 \<longrightarrow>
              e_tab t ! i ! (i - 1) = q ! (i - 1) \<and> w_tab t ! i ! (i - 1) = q ! (i - 1))"
  using optimalBST_final[OF assms] by (auto simp: final_def base_ok_def)

theorem base_cases_witness:
  "((1::nat) = 0 \<or> (1::nat) < length [Fin 0, dbl 1 (- 1)]) \<and>
   (1::nat) < length [dbl 1 (- 2), dbl 1 (- 2)] \<and>
   (\<exists>t. optimalBST [Fin 0, dbl 1 (- 1)] [dbl 1 (- 2), dbl 1 (- 2)] 1 [] [] [] = Some t \<and>
      e_tab t ! 1 ! 0 = dbl 1 (- 2) \<and> w_tab t ! 1 ! 0 = dbl 1 (- 2) \<and>
      e_tab t ! 2 ! 1 = dbl 1 (- 2) \<and> w_tab t ! 2 ! 1 = dbl 1 (- 2))"
proof -
  from base_cases[of 1 "[Fin 0, dbl 1 (- 1)]" "[dbl 1 (- 2), dbl 1 (- 2)]"] obtain t where
    t: "optimalBST [Fin 0, dbl 1 (- 1)] [dbl 1 (- 2), dbl 1 (- 2)] 1 [] [] [] = Some t"
    "\<forall>i. 1 \<le> i \<and> i \<le> 1 + 1 \<longrightarrow>
       e_tab t ! i ! (i - 1) = [dbl 1 (- 2), dbl 1 (- 2)] ! (i - 1) \<and>
       w_tab t ! i ! (i - 1) = [dbl 1 (- 2), dbl 1 (- 2)] ! (i - 1)"
    by auto
  from t(2)[rule_format, of 1] t(2)[rule_format, of 2] t(1) show ?thesis
    by simp
qed

lemma base_case_None: "length q \<le> i - 1 \<Longrightarrow> base_case q i t = None"
  by (simp add: base_case_def idx_None)

lemma fill_cell_None: "length p \<le> k + l - 1 \<Longrightarrow> fill_cell p q l k t = None"
  by (simp add: fill_cell_def idx_None Let_def split: Option.bind_split)

lemma optimalBST_None_q:
  assumes "length q \<le> n"
  shows "optimalBST p q n e w roots = None"
proof -
  have "for_each [1..<n + 1 + 1] (base_case q) s = None" for s
    by (rule for_each_None[where k = "n + 1"]) (use assms in \<open>simp_all add: base_case_None\<close>)
  then show ?thesis
    by (simp add: optimalBST_def Let_def)
qed

lemma optimalBST_None_p:
  assumes "0 < n" "length p \<le> n"
  shows "optimalBST p q n e w roots = None"
proof -
  have inner: "for_each [1..<n - 1 + 1 + 1] (fill_cell p q 1) s = None" for s
    by (rule for_each_None[where k = n]) (use assms in \<open>simp_all add: fill_cell_None\<close>)
  have "for_each [1..<n + 1] (\<lambda>l. for_each [1..<n - l + 1 + 1] (fill_cell p q l)) s = None" for s
  proof (rule for_each_None[where k = 1])
    show "1 \<in> set [1..<n + 1]" using assms(1) by auto
    show "for_each [1..<n - 1 + 1 + 1] (fill_cell p q 1) s = None" for s by (rule inner)
  qed
  then show ?thesis
    by (simp add: optimalBST_def Let_def split: Option.bind_split)
qed

text \<open>
  Claim C5, as amended.  The function has no validation and no error result.  It
  returns its tables exactly when every index it reads exists: \<open>q\<close> has more than
  \<open>n\<close> elements and, unless \<open>n = 0\<close>, so has \<open>p\<close>.  Longer vectors and negative
  entries are accepted; a shorter vector is read past its end (\<open>None\<close> here).
\<close>

theorem no_input_validation:
  "optimalBST p q n [] [] [] \<noteq> None \<longleftrightarrow> n < length q \<and> (n = 0 \<or> n < length p)"
proof (cases "n < length q \<and> (n = 0 \<or> n < length p)")
  case True
  with optimalBST_final[of n p q] show ?thesis by auto
next
  case False
  then have "optimalBST p q n [] [] [] = None"
    using optimalBST_None_q[of q n p] optimalBST_None_p[of n p q] by auto
  with False show ?thesis by simp
qed

text \<open>
  The claim as stated fails: with the negative probability \<open>p[1] = -1\<close> the call
  does not fail but returns tables.
\<close>

theorem negative_probability_accepted:
  "optimalBST [Fin 0, dbl (- 1) 0] [Fin 0, Fin 0] 1 [] [] [] =
     Some \<lparr>e_tab = [[Fin 0, Fin 0, Fin 0], [Fin 0, dbl (- 1) 0, Fin 0], [Fin 0, Fin 0, Fin 0]],
           w_tab = [[Fin 0, Fin 0, Fin 0], [Fin 0, dbl (- 1) 0, Fin 0], [Fin 0, Fin 0, Fin 0]],
           root_tab = [[0, 0, 0], [0, 1, 0], [0, 0, 0]]\<rparr> \<and>
   val (dbl (- 1) 0) = - 1"
  by (simp add: optimalBST_def resize_def base_case_def fill_cell_def try_root_def
      idx_def idx2_def upd2_def upt_conv_Cons Let_def replicate_numeral
      dbl_zero[of 0] dadd_eval dless_dbl dless_MAX_eval dbl_eq_iff rne_def val_dbl)

section \<open>The recurrence and the tie-break\<close>

lemma scan_step_nn:
  "nn (c r) \<Longrightarrow> nn (fst mr) \<Longrightarrow> scan_step c mr r = (if c r < fst mr then (c r, int r) else mr)"
  by (simp add: scan_step_def dless_nn)

lemma scan_upt:
  fixes c :: "nat \<Rightarrow> double"
  assumes m0: "nn m0"
  shows "(\<forall>r. i \<le> r \<and> r < k \<longrightarrow> nn (c r)) \<Longrightarrow>
         (foldl (scan_step c) (m0, rt0) [i..<k] = (m0, rt0) \<and> (\<forall>r. i \<le> r \<and> r < k \<longrightarrow> m0 \<le> c r)) \<or>
         (\<exists>r. i \<le> r \<and> r < k \<and> foldl (scan_step c) (m0, rt0) [i..<k] = (c r, int r) \<and> c r < m0 \<and>
              (\<forall>r'. i \<le> r' \<and> r' < r \<longrightarrow> c r < c r') \<and>
              (\<forall>r'. i \<le> r' \<and> r' < k \<longrightarrow> c r \<le> c r'))"
    (is "?nn k \<Longrightarrow> ?keep k \<or> ?hit k")
proof (induction k)
  case 0
  then show ?case by simp
next
  case (Suc k)
  then have nnk: "?nn k" by simp
  show ?case
  proof (cases "i \<le> k")
    case False
    then show ?thesis by auto
  next
    case ik: True
    with Suc.prems have ck: "nn (c k)" by simp
    from ik have unfold: "foldl (scan_step c) (m0, rt0) [i..<Suc k] =
        scan_step c (foldl (scan_step c) (m0, rt0) [i..<k]) k" by simp
    from Suc.IH[OF nnk] show ?thesis
    proof
      assume keep: "?keep k"
      show ?thesis
      proof (cases "c k < m0")
        case True
        with keep ik have "?hit (Suc k)"
          by (intro exI[of _ k]) (auto simp: scan_step_nn[of c k, OF ck] m0 less_Suc_eq)
        then show ?thesis ..
      next
        case False
        with keep have "?keep (Suc k)"
          by (auto simp: scan_step_nn[of c k, OF ck] m0 less_Suc_eq)
        then show ?thesis ..
      qed
    next
      assume "?hit k"
      then obtain r where r: "i \<le> r" "r < k"
        "foldl (scan_step c) (m0, rt0) [i..<k] = (c r, int r)" "c r < m0"
        "\<forall>r'. i \<le> r' \<and> r' < r \<longrightarrow> c r < c r'" "\<forall>r'. i \<le> r' \<and> r' < k \<longrightarrow> c r \<le> c r'"
        by blast
      from r(1,2) Suc.prems have cr: "nn (c r)" by simp
      show ?thesis
      proof (cases "c k < c r")
        case True
        have "?hit (Suc k)"
        proof (intro exI[of _ k] conjI allI impI)
          show "foldl (scan_step c) (m0, rt0) [i..<Suc k] = (c k, int k)"
            using True r(3) ik by (simp add: scan_step_nn[of c k, OF ck] cr)
          show "c k < m0" using True r(4) by simp
          show "c k < c r'" if "i \<le> r' \<and> r' < k" for r'
            using that r(6) True by (meson le_less_trans not_le order.strict_trans)
          show "c k \<le> c r'" if "i \<le> r' \<and> r' < Suc k" for r'
            using that r(6) True by (cases "r' = k") (auto simp: less_Suc_eq intro: less_imp_le order.trans)
        qed (use ik in simp_all)
        then show ?thesis ..
      next
        case False
        have "?hit (Suc k)"
        proof (intro exI[of _ r] conjI allI impI)
          show "foldl (scan_step c) (m0, rt0) [i..<Suc k] = (c r, int r)"
            using False r(3) ik by (simp add: scan_step_nn[of c k, OF ck] cr)
          show "c r \<le> c r'" if "i \<le> r' \<and> r' < Suc k" for r'
            using that r(6) False by (cases "r' = k") (auto simp: less_Suc_eq)
        qed (use r in simp_all)
        then show ?thesis ..
      qed
    qed
  qed
qed

lemma scan_nn:
  assumes "nn m0" "\<forall>r. i \<le> r \<and> r < k \<longrightarrow> nn (c r)"
  shows "nn (fst (foldl (scan_step c) (m0, rt0) [i..<k]))"
  using scan_upt[OF assms(1), of i k c rt0] assms by auto

subsection \<open>Every cell is a non-negative number or infinity\<close>

lemma nonneg_nn:
  assumes "nonneg p q n"
  shows "1 \<le> k \<Longrightarrow> k \<le> n \<Longrightarrow> nn (p ! k)" and "k \<le> n \<Longrightarrow> nn (q ! k)"
  using assms by (simp_all add: nonneg_def finite_nonneg_nn)

lemma final_w_nn:
  assumes "final p q n t" "nonneg p q n"
  shows "1 \<le> i \<Longrightarrow> i \<le> j + 1 \<Longrightarrow> j \<le> n \<Longrightarrow> nn (w_tab t ! i ! j)"
proof (induction j)
  case 0
  then have "i = 1" by simp
  moreover from assms have "base_ok q t 1" by (simp add: final_def)
  ultimately show ?case using nonneg_nn(2)[OF assms(2), of 0] by (simp add: base_ok_def)
next
  case (Suc j)
  show ?case
  proof (cases "i = Suc j + 1")
    case True
    with assms Suc.prems have "base_ok q t i" by (simp add: final_def)
    with True show ?thesis using nonneg_nn(2)[OF assms(2), of "Suc j"] Suc.prems
      by (simp add: base_ok_def)
  next
    case False
    with Suc.prems have ij: "i \<le> Suc j" "i \<le> j + 1" "j \<le> n" by simp_all
    with assms Suc.prems have "cell_ok p q t i (Suc j)" by (simp add: final_def)
    then have "w_tab t ! i ! Suc j = dadd (dadd (w_tab t ! i ! j) (p ! Suc j)) (q ! Suc j)"
      by (simp add: cell_ok_def)
    moreover have "nn (w_tab t ! i ! j)"
      by (rule Suc.IH[OF Suc.prems(1) ij(2,3)])
    moreover have "nn (p ! Suc j)" "nn (q ! Suc j)"
      using nonneg_nn[OF assms(2), of "Suc j"] Suc.prems by simp_all
    ultimately show ?thesis by (simp add: nn_dadd)
  qed
qed

lemma final_e_nn:
  assumes "final p q n t" "nonneg p q n"
  shows "1 \<le> i \<Longrightarrow> i \<le> j + 1 \<Longrightarrow> j \<le> n \<Longrightarrow> nn (e_tab t ! i ! j)"
proof (induction "j + 1 - i" arbitrary: i j rule: less_induct)
  case less
  show ?case
  proof (cases "i = j + 1")
    case True
    with assms less.prems have "base_ok q t i" by (simp add: final_def)
    with True show ?thesis using nonneg_nn(2)[OF assms(2), of j] less.prems
      by (simp add: base_ok_def)
  next
    case False
    with less.prems have ij: "i \<le> j" by simp
    with assms less.prems have "cell_ok p q t i j" by (simp add: final_def)
    then have "(e_tab t ! i ! j, root_tab t ! i ! j) =
        foldl (scan_step (cand t i j)) (DBL_MAX, 0) [i..<j + 1]"
      by (simp add: cell_ok_def)
    then have e: "e_tab t ! i ! j = fst (foldl (scan_step (cand t i j)) (DBL_MAX, 0) [i..<j + 1])"
      by (metis fst_conv)
    have "nn (cand t i j r)" if r: "i \<le> r \<and> r < j + 1" for r
    proof -
      from r less.prems have "nn (e_tab t ! i ! (r - 1))"
        by (intro less.hyps) auto
      moreover from r less.prems have "nn (e_tab t ! (r + 1) ! j)"
        by (intro less.hyps) auto
      moreover from less.prems have "nn (w_tab t ! i ! j)"
        by (intro final_w_nn[OF assms]) auto
      ultimately show ?thesis by (simp add: cand_def nn_dadd)
    qed
    then show ?thesis
      unfolding e by (intro scan_nn nn_DBL_MAX) simp
  qed
qed

lemma final_cand_nn:
  assumes "final p q n t" "nonneg p q n" "1 \<le> i" "i \<le> r" "r \<le> j" "j \<le> n"
  shows "nn (cand t i j r)"
proof -
  from assms have "nn (e_tab t ! i ! (r - 1))"
    by (intro final_e_nn[OF assms(1,2)]) auto
  moreover from assms have "nn (e_tab t ! (r + 1) ! j)"
    by (intro final_e_nn[OF assms(1,2)]) auto
  moreover from assms have "nn (w_tab t ! i ! j)"
    by (intro final_w_nn[OF assms(1,2)]) auto
  ultimately show ?thesis by (simp add: cand_def nn_dadd)
qed

lemma final_cell:
  assumes "final p q n t" "nonneg p q n" "1 \<le> i" "i \<le> j" "j \<le> n"
  shows "(e_tab t ! i ! j = DBL_MAX \<and> root_tab t ! i ! j = 0 \<and>
            (\<forall>r. i \<le> r \<and> r \<le> j \<longrightarrow> DBL_MAX \<le> cand t i j r)) \<or>
         (\<exists>r. i \<le> r \<and> r \<le> j \<and> e_tab t ! i ! j = cand t i j r \<and> root_tab t ! i ! j = int r \<and>
              cand t i j r < DBL_MAX \<and>
              (\<forall>r'. i \<le> r' \<and> r' < r \<longrightarrow> cand t i j r < cand t i j r') \<and>
              (\<forall>r'. i \<le> r' \<and> r' \<le> j \<longrightarrow> cand t i j r \<le> cand t i j r'))"
proof -
  from assms have "(e_tab t ! i ! j, root_tab t ! i ! j) =
      foldl (scan_step (cand t i j)) (DBL_MAX, 0) [i..<j + 1]"
    by (simp add: final_def cell_ok_def)
  moreover have "\<forall>r. i \<le> r \<and> r < j + 1 \<longrightarrow> nn (cand t i j r)"
    using final_cand_nn[OF assms(1-3) _ _ assms(5)] by simp
  ultimately show ?thesis
    using scan_upt[OF nn_DBL_MAX, of i "j + 1" "cand t i j" 0]
    by (auto simp: less_Suc_eq_le)
qed

text \<open>
  Claim C2, as amended.  For finite non-negative inputs, on every non-empty interval
  the scan leaves in \<open>e[i][j]\<close> the least candidate cost
  \<open>e[i][r-1] + e[r+1][j] + w[i][j]\<close> (the sums rounded as the program rounds them) and
  in \<open>root[i][j]\<close> the smallest \<open>r\<close> that attains it, provided some candidate is below
  the sentinel \<^const>\<open>DBL_MAX\<close>.  When no candidate is, the comparison
  \<^verbatim>\<open>cost < e[i][j]\<close> never succeeds: \<open>e[i][j]\<close> keeps the sentinel and \<open>root[i][j]\<close> keeps
  the \<open>0\<close> of the fresh table.
\<close>

theorem recurrence_and_tie_break:
  assumes "n < length p" "n < length q" "nonneg p q n" "1 \<le> i" "i \<le> j" "j \<le> n"
  shows "\<exists>t. optimalBST p q n [] [] [] = Some t \<and>
           ((e_tab t ! i ! j = DBL_MAX \<and> root_tab t ! i ! j = 0 \<and>
               (\<forall>r. i \<le> r \<and> r \<le> j \<longrightarrow> dle DBL_MAX (cand t i j r))) \<or>
            (\<exists>r. i \<le> r \<and> r \<le> j \<and> e_tab t ! i ! j = cand t i j r \<and> root_tab t ! i ! j = int r \<and>
               dless (cand t i j r) DBL_MAX \<and>
               (\<forall>r'. i \<le> r' \<and> r' < r \<longrightarrow> dless (cand t i j r) (cand t i j r')) \<and>
               (\<forall>r'. i \<le> r' \<and> r' \<le> j \<longrightarrow> dle (cand t i j r) (cand t i j r'))))"
proof -
  from optimalBST_final[of n p q] assms(1,2) obtain t where
    t: "optimalBST p q n [] [] [] = Some t" "final p q n t" by blast
  have c: "nn (cand t i j r)" if "i \<le> r" "r \<le> j" for r
    using final_cand_nn[OF t(2) assms(3,4) that assms(6)] .
  from final_cell[OF t(2) assms(3-6)]
  have "(e_tab t ! i ! j = DBL_MAX \<and> root_tab t ! i ! j = 0 \<and>
               (\<forall>r. i \<le> r \<and> r \<le> j \<longrightarrow> dle DBL_MAX (cand t i j r))) \<or>
            (\<exists>r. i \<le> r \<and> r \<le> j \<and> e_tab t ! i ! j = cand t i j r \<and> root_tab t ! i ! j = int r \<and>
               dless (cand t i j r) DBL_MAX \<and>
               (\<forall>r'. i \<le> r' \<and> r' < r \<longrightarrow> dless (cand t i j r) (cand t i j r')) \<and>
               (\<forall>r'. i \<le> r' \<and> r' \<le> j \<longrightarrow> dle (cand t i j r) (cand t i j r')))"
  proof (elim disjE exE conjE)
    assume a: "e_tab t ! i ! j = DBL_MAX" "root_tab t ! i ! j = 0"
      "\<forall>r. i \<le> r \<and> r \<le> j \<longrightarrow> DBL_MAX \<le> cand t i j r"
    then show ?thesis
      using c by (auto simp: dle_nn nn_DBL_MAX)
  next
    fix r
    assume r: "i \<le> r" "r \<le> j" "e_tab t ! i ! j = cand t i j r" "root_tab t ! i ! j = int r"
      "cand t i j r < DBL_MAX"
      "\<forall>r'. i \<le> r' \<and> r' < r \<longrightarrow> cand t i j r < cand t i j r'"
      "\<forall>r'. i \<le> r' \<and> r' \<le> j \<longrightarrow> cand t i j r \<le> cand t i j r'"
    have "dless (cand t i j r) DBL_MAX"
      using r(5) c[OF r(1,2)] by (simp add: dless_nn nn_DBL_MAX)
    moreover have "\<forall>r'. i \<le> r' \<and> r' < r \<longrightarrow> dless (cand t i j r) (cand t i j r')"
      using r(1,2,6) c by (auto simp: dless_nn)
    moreover have "\<forall>r'. i \<le> r' \<and> r' \<le> j \<longrightarrow> dle (cand t i j r) (cand t i j r')"
      using r(1,2,7) c by (auto simp: dle_nn)
    ultimately show ?thesis using r(1-4) by blast
  qed
  with t(1) show ?thesis by blast
qed

lemma nonneg_example:
  "nonneg [Fin 0, dbl 2 (- 3), dbl 1 (- 3)] [dbl 1 (- 3), dbl 2 (- 3), dbl 2 (- 3)] 2"
  by (simp add: nonneg_def atLeastAtMost_upt upt_conv_Cons finite_nonneg_dbl)

theorem recurrence_and_tie_break_witness:
  "(2::nat) < length [Fin 0, dbl 2 (- 3), dbl 1 (- 3)] \<and>
   (2::nat) < length [dbl 1 (- 3), dbl 2 (- 3), dbl 2 (- 3)] \<and>
   nonneg [Fin 0, dbl 2 (- 3), dbl 1 (- 3)] [dbl 1 (- 3), dbl 2 (- 3), dbl 2 (- 3)] 2 \<and>
   (1::nat) \<le> 1 \<and> (1::nat) \<le> 2 \<and> (2::nat) \<le> 2 \<and>
   (\<exists>t. optimalBST [Fin 0, dbl 2 (- 3), dbl 1 (- 3)] [dbl 1 (- 3), dbl 2 (- 3), dbl 2 (- 3)] 2 [] [] [] = Some t \<and>
      ((e_tab t ! 1 ! 2 = DBL_MAX \<and> root_tab t ! 1 ! 2 = 0) \<or>
       (\<exists>r. 1 \<le> r \<and> r \<le> 2 \<and> e_tab t ! 1 ! 2 = cand t 1 2 r \<and> root_tab t ! 1 ! 2 = int r)))"
  using recurrence_and_tie_break[of 2 "[Fin 0, dbl 2 (- 3), dbl 1 (- 3)]"
      "[dbl 1 (- 3), dbl 2 (- 3), dbl 2 (- 3)]" 1 2] nonneg_example
  by auto

lemma DBL_MAX_simps:
  "dadd DBL_MAX (Fin 0) = DBL_MAX" "dadd DBL_MAX PInf = PInf" "dadd PInf DBL_MAX = PInf"
  "\<not> dless PInf DBL_MAX" "\<not> dless DBL_MAX DBL_MAX" "DBL_MAX \<noteq> PInf"
  by (simp_all add: dadd_zero_right[OF nn_DBL_MAX]) (simp_all add: DBL_MAX_def dbl_def)

lemma overflow_run:
  "optimalBST [Fin 0, DBL_MAX] [DBL_MAX, Fin 0] 1 [] [] [] = Some overflow_tables"
  by (simp add: optimalBST_def resize_def base_case_def fill_cell_def try_root_def
      idx_def idx2_def upd2_def upt_conv_Cons Let_def replicate_numeral overflow_tables_def
      DBL_MAX_overflow DBL_MAX_simps)

lemma finite_nonneg_DBL_MAX: "finite_nonneg DBL_MAX"
  unfolding DBL_MAX_def by (rule finite_nonneg_dbl) simp_all

lemma nonneg_overflow: "nonneg [Fin 0, DBL_MAX] [DBL_MAX, Fin 0] 1"
  by (simp add: nonneg_def finite_nonneg_DBL_MAX atLeastAtMost_upt upt_conv_Cons)

text \<open>
  The claim as stated fails for \<open>p = [_, DBL_MAX]\<close>, \<open>q = [DBL_MAX, 0]\<close>, \<open>n = 1\<close>, finite
  non-negative inputs: the weight \<open>w[1][1]\<close> overflows to \<open>+\<infinity>\<close>, and so does the cost of
  the only candidate \<open>r = 1\<close>; it is not below the sentinel, so \<open>e[1][1]\<close> is not that
  cost and \<open>root[1][1]\<close> is not \<open>1\<close>.
\<close>

theorem recurrence_counterexample:
  "nonneg [Fin 0, DBL_MAX] [DBL_MAX, Fin 0] 1 \<and>
   optimalBST [Fin 0, DBL_MAX] [DBL_MAX, Fin 0] 1 [] [] [] = Some overflow_tables \<and>
   cand overflow_tables 1 1 1 = PInf \<and>
   e_tab overflow_tables ! 1 ! 1 = DBL_MAX \<and>
   e_tab overflow_tables ! 1 ! 1 \<noteq> cand overflow_tables 1 1 1 \<and>
   root_tab overflow_tables ! 1 ! 1 \<noteq> 1"
proof (intro conjI)
  show "optimalBST [Fin 0, DBL_MAX] [DBL_MAX, Fin 0] 1 [] [] [] = Some overflow_tables"
    by (rule overflow_run)
  show "nonneg [Fin 0, DBL_MAX] [DBL_MAX, Fin 0] 1"
    by (rule nonneg_overflow)
qed (simp_all add: overflow_tables_def cand_def DBL_MAX_simps)

section \<open>Optimality\<close>

lemma length_key_depths [simp]: "length (key_depths d s) = nodes s"
  by (induction s arbitrary: d) simp_all

lemma length_gap_depths [simp]: "length (gap_depths d s) = nodes s + 1"
  by (induction s arbitrary: d) simp_all

lemma sum_lessThan_add:
  fixes f :: "nat \<Rightarrow> real"
  shows "(\<Sum>k<a + b. f k) = (\<Sum>k<a. f k) + (\<Sum>k<b. f (a + k))"
  by (induction b) (simp_all add: add.assoc)

lemma wsum_Nil [simp]: "wsum [] v i = 0"
  by (simp add: wsum_def)

lemma wsum_single [simp]: "wsum [d] v i = real d * v ! i"
  by (simp add: wsum_def)

lemma wsum_append: "wsum (xs @ ys) v i = wsum xs v i + wsum ys v (i + length xs)"
  by (simp add: wsum_def sum_lessThan_add nth_append add.assoc)

lemma wsum_Cons: "wsum (x # xs) v i = real x * v ! i + wsum xs v (Suc i)"
  using wsum_append[of "[x]" xs v i] by simp

lemma expected_cost_at:
  "1 \<le> i \<Longrightarrow> wsum (key_depths d s) p i + wsum (gap_depths d s) q (i - 1) = cost_at p q d i s"
proof (induction s arbitrary: d i)
  case Gap
  then show ?case by simp
next
  case (Key l r)
  from Key.prems have "i - 1 + (nodes l + 1) = i + nodes l + 1 - 1" by simp
  with Key.IH(1)[OF Key.prems, of "Suc d"] Key.IH(2)[of "i + nodes l + 1" "Suc d"]
  show ?case
    by (simp add: wsum_append wsum_Cons algebra_simps)
qed

lemma weight_empty: "1 \<le> i \<Longrightarrow> weight p q i (i - 1) = q ! (i - 1)"
  by (simp add: weight_def)

lemma sum_split_at:
  fixes f :: "nat \<Rightarrow> real"
  assumes "i \<le> k" "k \<le> j"
  shows "(\<Sum>x = i..j. f x) = (\<Sum>x = i..<k. f x) + f k + (\<Sum>x = Suc k..j. f x)"
proof -
  have "{i..j} = {i..<k} \<union> {k} \<union> {Suc k..j}" using assms by auto
  moreover have "{i..<k} \<inter> {k} = {}" "({i..<k} \<union> {k}) \<inter> {Suc k..j} = {}" by auto
  ultimately show ?thesis by (simp add: sum.union_disjoint)
qed

lemma weight_split:
  assumes "1 \<le> i" "i \<le> k" "k \<le> j"
  shows "weight p q i j = weight p q i (k - 1) + p ! k + weight p q (k + 1) j"
proof -
  have a: "{i..k - 1} = {i..<k}" "{i - 1..k - 1} = {i - 1..<k}" using assms by auto
  have "(\<Sum>x = i - 1..j. q ! x) = (\<Sum>x = i - 1..<k. q ! x) + q ! k + (\<Sum>x = Suc k..j. q ! x)"
    using assms by (intro sum_split_at) auto
  moreover have "(\<Sum>x = k..j. q ! x) = q ! k + (\<Sum>x = Suc k..j. q ! x)"
    using assms by (simp add: sum.atLeast_Suc_atMost)
  ultimately show ?thesis
    using sum_split_at[OF assms(2,3), of "(!) p"] a by (simp add: weight_def)
qed

lemma cost_at_Suc:
  "1 \<le> i \<Longrightarrow> cost_at p q (Suc d) i s = cost_at p q d i s + weight p q i (i + nodes s - 1)"
proof (induction s arbitrary: d i)
  case Gap
  with weight_empty[of i p q] show ?case by (simp add: algebra_simps)
next
  case (Key l r)
  define k where "k = i + nodes l"
  define j where "j = i + nodes l + nodes r"
  have idx: "i + nodes (Key l r) - 1 = j" "k + 1 + nodes r - 1 = j" "i + nodes l - 1 = k - 1"
    "i + nodes l + 1 = k + 1" "i + nodes l = k"
    by (simp_all add: k_def j_def)
  have "i \<le> k" "k \<le> j" by (simp_all add: k_def j_def)
  from weight_split[OF Key.prems this]
  have w: "weight p q i j = weight p q i (k - 1) + p ! k + weight p q (k + 1) j" .
  have l: "cost_at p q (Suc (Suc d)) i l = cost_at p q (Suc d) i l + weight p q i (k - 1)"
    using Key.IH(1)[OF Key.prems, of "Suc d"] by (simp only: idx)
  have r: "cost_at p q (Suc (Suc d)) (k + 1) r = cost_at p q (Suc d) (k + 1) r + weight p q (k + 1) j"
    using Key.IH(2)[of "k + 1" "Suc d"] by (simp only: idx)
  have A: "cost_at p q (Suc d) i (Key l r) =
        cost_at p q (Suc (Suc d)) i l + real (Suc d) * p ! k + cost_at p q (Suc (Suc d)) (k + 1) r"
    by (simp only: cost_at.simps idx)
  have B: "cost_at p q d i (Key l r) =
        cost_at p q (Suc d) i l + real d * p ! k + cost_at p q (Suc d) (k + 1) r"
    by (simp only: cost_at.simps idx)
  show ?case
    unfolding idx(1) A B l r w by (simp add: algebra_simps)
qed

lemma cost_at_Key:
  assumes "1 \<le> i"
  shows "cost_at p q 1 i (Key l r) =
         cost_at p q 1 i l + cost_at p q 1 (i + nodes l + 1) r + weight p q i (i + nodes l + nodes r)"
proof -
  define k where "k = i + nodes l"
  define j where "j = i + nodes l + nodes r"
  have idx: "k + 1 + nodes r - 1 = j" "i + nodes l - 1 = k - 1"
    "i + nodes l + 1 = k + 1" "i + nodes l = k" "i + nodes l + nodes r = j"
    by (simp_all add: k_def j_def)
  have "i \<le> k" "k \<le> j" by (simp_all add: k_def j_def)
  from weight_split[OF assms this]
  have w: "weight p q i j = weight p q i (k - 1) + p ! k + weight p q (k + 1) j" .
  have l: "cost_at p q (Suc 1) i l = cost_at p q 1 i l + weight p q i (k - 1)"
    using cost_at_Suc[OF assms, of p q 1 l] by (simp only: idx)
  have r: "cost_at p q (Suc 1) (k + 1) r = cost_at p q 1 (k + 1) r + weight p q (k + 1) j"
    using cost_at_Suc[of "k + 1" p q 1 r] by (simp only: idx)
  have A: "cost_at p q 1 i (Key l r) =
        cost_at p q (Suc 1) i l + real 1 * p ! k + cost_at p q (Suc 1) (k + 1) r"
    by (simp only: cost_at.simps idx)
  have "cost_at p q 1 i (Key l r) = cost_at p q 1 i l + cost_at p q 1 (k + 1) r + weight p q i j"
    unfolding A l r w by simp
  then show ?thesis
    by (simp add: k_def j_def)
qed

lemma in_concat_map: "x \<in> set (concat (map f xs)) \<longleftrightarrow> (\<exists>a \<in> set xs. x \<in> set (f a))"
  by auto

lemma in_all_shapes_Suc:
  "s \<in> set (all_shapes (Suc m)) \<longleftrightarrow>
   (\<exists>k l r. k \<le> m \<and> l \<in> set (all_shapes k) \<and> r \<in> set (all_shapes (m - k)) \<and> s = Key l r)"
proof -
  have "s \<in> set (all_shapes (Suc m)) \<longleftrightarrow>
        (\<exists>k \<in> set [0..<Suc m]. \<exists>l \<in> set (all_shapes k). \<exists>r \<in> set (all_shapes (m - k)). s = Key l r)"
    by (simp only: all_shapes.simps in_concat_map set_map image_iff)
  also have "\<dots> \<longleftrightarrow> (\<exists>k l r. k \<le> m \<and> l \<in> set (all_shapes k) \<and> r \<in> set (all_shapes (m - k)) \<and> s = Key l r)"
    unfolding set_upt atLeastLessThan_iff Bex_def less_Suc_eq_le by blast
  finally show ?thesis .
qed

lemma all_shapes_complete: "set (all_shapes n) = {s. nodes s = n}"
proof (induction n rule: less_induct)
  case (less n)
  show ?case
  proof (cases n)
    case 0
    have "nodes s = 0 \<longleftrightarrow> s = Gap" for s by (cases s) simp_all
    with 0 show ?thesis by auto
  next
    case (Suc m)
    have "s \<in> set (all_shapes (Suc m)) \<longleftrightarrow> nodes s = Suc m" for s
    proof
      assume "s \<in> set (all_shapes (Suc m))"
      then obtain k l r where "k \<le> m" "l \<in> set (all_shapes k)" "r \<in> set (all_shapes (m - k))"
        "s = Key l r" unfolding in_all_shapes_Suc by blast
      with less[of k] less[of "m - k"] Suc show "nodes s = Suc m" by auto
    next
      assume n: "nodes s = Suc m"
      then obtain l r where s: "s = Key l r" by (cases s) simp_all
      with n have "nodes l < Suc m" "nodes r = m - nodes l" by simp_all
      with less[of "nodes l"] less[of "m - nodes l"] Suc
      have "l \<in> set (all_shapes (nodes l))" "r \<in> set (all_shapes (m - nodes l))" by auto
      with s \<open>nodes l < Suc m\<close> show "s \<in> set (all_shapes (Suc m))"
        unfolding in_all_shapes_Suc by (intro exI[of _ "nodes l"] exI[of _ l] exI[of _ r]) simp
    qed
    then show ?thesis unfolding Suc by blast
  qed
qed

lemma final_base:
  "final p q n t \<Longrightarrow> 1 \<le> i \<Longrightarrow> i \<le> n + 1 \<Longrightarrow> e_tab t ! i ! (i - 1) = q ! (i - 1)"
  by (simp add: final_def base_ok_def)

lemma final_e_le_cand:
  assumes "final p q n t" "nonneg p q n" "1 \<le> i" "i \<le> j" "j \<le> n" "i \<le> r" "r \<le> j"
  shows "e_tab t ! i ! j \<le> cand t i j r"
  using final_cell[OF assms(1-5)] assms(6,7) by auto

lemma final_e_le_max:
  assumes "final p q n t" "nonneg p q n" "1 \<le> i" "i \<le> j" "j \<le> n"
  shows "e_tab t ! i ! j \<le> DBL_MAX"
  using final_cell[OF assms(1-5)] by auto

lemma e_le_fcost:
  assumes "final p q n t" "nonneg p q n"
  shows "1 \<le> i \<Longrightarrow> j \<le> n \<Longrightarrow> i + nodes s = j + 1 \<Longrightarrow>
         e_tab t ! i ! j \<le> fcost p q i s \<and> nn (fcost p q i s)"
proof (induction s arbitrary: i j)
  case Gap
  then have j: "j = i - 1" "i \<le> n + 1" "i - 1 \<le> n" by simp_all
  from final_base[OF assms(1) Gap.prems(1) j(2)] nonneg_nn(2)[OF assms(2) j(3)]
  show ?case by (simp add: j(1))
next
  case (Key l r)
  define k where "k = i + nodes l"
  from Key.prems have k: "i \<le> k" "k \<le> j" "1 \<le> k" "k - 1 \<le> n" "i + nodes l = k - 1 + 1"
    "1 \<le> k + 1" "k + 1 + nodes r = j + 1" "i \<le> j" "i + nodes l + nodes r = j" "i + nodes l + 1 = k + 1"
    by (simp_all add: k_def)
  note L = Key.IH(1)[OF Key.prems(1) k(4,5)]
  note R = Key.IH(2)[OF k(6) Key.prems(2) k(7)]
  have w: "w_tab t ! i ! j = weight_sum p q i j"
    using final_weight[OF assms(1) Key.prems(1) _ Key.prems(2)] k(8) by simp
  have nw: "nn (w_tab t ! i ! j)"
    using final_w_nn[OF assms Key.prems(1) _ Key.prems(2)] k(8) by simp
  have na: "nn (e_tab t ! i ! (k - 1))"
    using final_e_nn[OF assms Key.prems(1), of "k - 1"] k by simp
  have nb: "nn (e_tab t ! (k + 1) ! j)"
    using final_e_nn[OF assms k(6) _ Key.prems(2)] k by simp
  have f: "fcost p q i (Key l r) =
      dadd (dadd (fcost p q i l) (fcost p q (k + 1) r)) (w_tab t ! i ! j)"
    unfolding w by (simp only: fcost.simps k(9,10))
  have "e_tab t ! i ! j \<le> cand t i j k"
    by (rule final_e_le_cand[OF assms Key.prems(1) k(8) Key.prems(2) k(1,2)])
  also have "\<dots> = dadd (dadd (e_tab t ! i ! (k - 1)) (e_tab t ! (k + 1) ! j)) (w_tab t ! i ! j)"
    by (simp add: cand_def)
  also have "\<dots> \<le> dadd (dadd (fcost p q i l) (fcost p q (k + 1) r)) (w_tab t ! i ! j)"
  proof (rule dadd_mono)
    show "dadd (e_tab t ! i ! (k - 1)) (e_tab t ! (k + 1) ! j) \<le> dadd (fcost p q i l) (fcost p q (k + 1) r)"
      by (rule dadd_mono) (use L R na nb in simp_all)
  qed (use L R na nb nw in \<open>simp_all add: nn_dadd\<close>)
  finally have "e_tab t ! i ! j \<le> fcost p q i (Key l r)"
    unfolding f .
  moreover have "nn (fcost p q i (Key l r))"
    unfolding f using L R nw by (simp add: nn_dadd)
  ultimately show ?case by simp
qed

lemma e_attained:
  assumes "final p q n t" "nonneg p q n"
  shows "1 \<le> i \<Longrightarrow> i \<le> j + 1 \<Longrightarrow> j \<le> n \<Longrightarrow>
         (i \<le> j \<and> e_tab t ! i ! j = DBL_MAX) \<or>
         (\<exists>s. i + nodes s = j + 1 \<and> e_tab t ! i ! j = fcost p q i s)"
proof (induction "j + 1 - i" arbitrary: i j rule: less_induct)
  case less
  show ?case
  proof (cases "i \<le> j")
    case False
    with less.prems have j: "j = i - 1" "i \<le> n + 1" "i - 1 \<le> n" by simp_all
    from final_base[OF assms(1) less.prems(1) j(2)]
    have "e_tab t ! i ! j = fcost p q i Gap"
      by (simp add: j(1))
    moreover have "i + nodes Gap = j + 1" using less.prems j by simp
    ultimately show ?thesis by blast
  next
    case True
    from final_cell[OF assms less.prems(1) True less.prems(3)] show ?thesis
    proof
      assume "e_tab t ! i ! j = DBL_MAX \<and> root_tab t ! i ! j = 0 \<and>
          (\<forall>r. i \<le> r \<and> r \<le> j \<longrightarrow> DBL_MAX \<le> cand t i j r)"
      with True show ?thesis by simp
    next
      assume "\<exists>r. i \<le> r \<and> r \<le> j \<and> e_tab t ! i ! j = cand t i j r \<and> root_tab t ! i ! j = int r \<and>
          cand t i j r < DBL_MAX \<and> (\<forall>r'. i \<le> r' \<and> r' < r \<longrightarrow> cand t i j r < cand t i j r') \<and>
          (\<forall>r'. i \<le> r' \<and> r' \<le> j \<longrightarrow> cand t i j r \<le> cand t i j r')"
      then obtain r where r: "i \<le> r" "r \<le> j" "e_tab t ! i ! j = cand t i j r" "cand t i j r < DBL_MAX"
        by blast
      define a where "a = e_tab t ! i ! (r - 1)"
      define b where "b = e_tab t ! (r + 1) ! j"
      have w: "w_tab t ! i ! j = weight_sum p q i j"
        using final_weight[OF assms(1) less.prems(1) _ less.prems(3)] True by simp
      have c: "cand t i j r = dadd (dadd a b) (w_tab t ! i ! j)"
        by (simp add: cand_def a_def b_def)
      have nw: "nn (w_tab t ! i ! j)"
        using final_w_nn[OF assms less.prems(1) _ less.prems(3)] True by simp
      have na: "nn a"
        unfolding a_def using final_e_nn[OF assms less.prems(1), of "r - 1"] r less.prems by simp
      have nb: "nn b"
        unfolding b_def using final_e_nn[OF assms _ _ less.prems(3), of "r + 1"] r by simp
      have "a \<le> dadd a b" "b \<le> dadd a b"
        using na nb by (simp_all add: dadd_ge_left dadd_ge_right)
      moreover have "dadd a b \<le> cand t i j r"
        unfolding c using na nb nw by (simp add: dadd_ge_left nn_dadd)
      ultimately have "a < DBL_MAX" "b < DBL_MAX"
        using r(4) by simp_all
      then have ne: "a \<noteq> DBL_MAX" "b \<noteq> DBL_MAX" by simp_all
      have left: "(i \<le> r - 1 \<and> a = DBL_MAX) \<or> (\<exists>s. i + nodes s = r - 1 + 1 \<and> a = fcost p q i s)"
        unfolding a_def using r less.prems by (intro less.hyps) simp_all
      have right: "(r + 1 \<le> j \<and> b = DBL_MAX) \<or> (\<exists>s. r + 1 + nodes s = j + 1 \<and> b = fcost p q (r + 1) s)"
        unfolding b_def using r less.prems by (intro less.hyps) simp_all
      from left right ne obtain sl sr where
        sl: "i + nodes sl = r - 1 + 1" "a = fcost p q i sl" and
        sr: "r + 1 + nodes sr = j + 1" "b = fcost p q (r + 1) sr" by blast
      from sl(1) sr(1) r less.prems(1) have n: "i + nodes sl + 1 = r + 1" "i + nodes sl + nodes sr = j"
        "i + nodes (Key sl sr) = j + 1" by simp_all
      have "fcost p q i (Key sl sr) = dadd (dadd a b) (w_tab t ! i ! j)"
        unfolding w sl(2) sr(2) by (simp only: fcost.simps n(1,2))
      with c r(3) have "e_tab t ! i ! j = fcost p q i (Key sl sr)" by simp
      then show ?thesis using n(3) by blast
    qed
  qed
qed

lemma final_optimum:
  assumes "final p q n t" "nonneg p q n" "s0 \<in> set (all_shapes n)" "fcost p q 1 s0 < DBL_MAX"
  shows "(\<exists>s \<in> set (all_shapes n). e_tab t ! 1 ! n = fcost p q 1 s) \<and>
         (\<forall>s \<in> set (all_shapes n). e_tab t ! 1 ! n \<le> fcost p q 1 s \<and> nn (fcost p q 1 s)) \<and>
         e_tab t ! 1 ! n < DBL_MAX"
proof -
  have le: "e_tab t ! 1 ! n \<le> fcost p q 1 s \<and> nn (fcost p q 1 s)" if "s \<in> set (all_shapes n)" for s
    using e_le_fcost[OF assms(1,2), of 1 n s] that by (simp add: all_shapes_complete)
  from le[OF assms(3)] have "e_tab t ! 1 ! n \<le> fcost p q 1 s0" by simp
  then have below: "e_tab t ! 1 ! n < DBL_MAX"
    using assms(4) by (rule le_less_trans)
  then have "e_tab t ! 1 ! n \<noteq> DBL_MAX" by simp
  with e_attained[OF assms(1,2), of 1 n] obtain s' where
    "1 + nodes s' = n + 1" "e_tab t ! 1 ! n = fcost p q 1 s'" by auto
  then have "\<exists>s \<in> set (all_shapes n). e_tab t ! 1 ! n = fcost p q 1 s"
    by (auto simp: all_shapes_complete)
  with le below show ?thesis by blast
qed

text \<open>
  Claim C1, as amended.  For finite non-negative \<open>p[1..n]\<close>, \<open>q[0..n]\<close>, if the cost of
  some tree, computed in binary64, is below the sentinel \<^const>\<open>DBL_MAX\<close>, then the run
  leaves in \<open>e[1][n]\<close> the least of the costs of all shapes of binary search trees on
  the \<open>n\<close> keys with the \<open>n+1\<close> gaps as leaves: the cost of one of them, and not above
  the cost of any.  The cost of a shape is here what the program's arithmetic makes
  of it (\<^const>\<open>fcost\<close>: rounded sums in the program's order), not the real number
  \<open>sum (depth(key) * p[key]) + sum (depth(gap) * q[gap])\<close>.
  (\<^const>\<open>all_shapes\<close> enumerates exactly the shapes with \<open>n\<close> keys, lemma
  \<open>all_shapes_complete\<close>.)
\<close>

theorem optimality:
  assumes "n = 0 \<or> n < length p" "n < length q" "nonneg p q n"
    and "\<exists>s \<in> set (all_shapes n). dless (fcost p q 1 s) DBL_MAX"
  shows "\<exists>t. optimalBST p q n [] [] [] = Some t \<and>
           (\<exists>s \<in> set (all_shapes n). e_tab t ! 1 ! n = fcost p q 1 s) \<and>
           (\<forall>s \<in> set (all_shapes n). dle (e_tab t ! 1 ! n) (fcost p q 1 s))"
proof -
  from optimalBST_final[OF assms(1,2)] obtain t where
    t: "optimalBST p q n [] [] [] = Some t" "final p q n t" by blast
  from assms(4) obtain s0 where s0: "s0 \<in> set (all_shapes n)" "dless (fcost p q 1 s0) DBL_MAX"
    by blast
  from e_le_fcost[OF t(2) assms(3), of 1 n s0] s0(1) have "nn (fcost p q 1 s0)"
    by (simp add: all_shapes_complete)
  with s0(2) have "fcost p q 1 s0 < DBL_MAX"
    by (simp add: dless_nn nn_DBL_MAX)
  from final_optimum[OF t(2) assms(3) s0(1) this]
  have a: "\<exists>s \<in> set (all_shapes n). e_tab t ! 1 ! n = fcost p q 1 s"
    and b: "\<forall>s \<in> set (all_shapes n). e_tab t ! 1 ! n \<le> fcost p q 1 s \<and> nn (fcost p q 1 s)"
    by blast+
  from a b have "nn (e_tab t ! 1 ! n)" by auto
  with b have "\<forall>s \<in> set (all_shapes n). dle (e_tab t ! 1 ! n) (fcost p q 1 s)"
    by (simp add: dle_nn)
  with t(1) a show ?thesis by blast
qed

lemma all_shapes_1: "all_shapes 1 = [Key Gap Gap]"
  by simp

lemma dbl_shift:
  assumes "- 1074 \<le> e"
  shows "dbl (m * 2 ^ k) e = dbl m (e + int k)"
proof -
  from assms have "nat (e + int k + 1074) = k + nat (e + 1074)" by simp
  then show ?thesis
    by (simp add: dbl_def power_add)
qed

lemma one_as_dbl: "dbl 9007199254740992 (- 53) = dbl 1 0"
  using dbl_shift[of "- 53" 1 53] by simp

lemma min_cost_1: "min_cost p q 1 = p ! 1 + 2 * q ! 0 + 2 * q ! 1"
  by (simp add: min_cost_def expected_cost_def wsum_def numeral_2_eq_2)

lemma nonneg_pair:
  "finite_nonneg p1 \<Longrightarrow> finite_nonneg q0 \<Longrightarrow> finite_nonneg q1 \<Longrightarrow> nonneg [p0, p1] [q0, q1] 1"
  by (simp add: nonneg_def atLeastAtMost_upt upt_conv_Cons)

theorem optimality_witness:
  "((1::nat) = 0 \<or> (1::nat) < length [Fin 0, dbl 2 (- 2)]) \<and>
   (1::nat) < length [dbl 1 (- 2), dbl 1 (- 2)] \<and>
   nonneg [Fin 0, dbl 2 (- 2)] [dbl 1 (- 2), dbl 1 (- 2)] 1 \<and>
   (\<exists>s \<in> set (all_shapes 1). dless (fcost [Fin 0, dbl 2 (- 2)] [dbl 1 (- 2), dbl 1 (- 2)] 1 s) DBL_MAX) \<and>
   (\<exists>t. optimalBST [Fin 0, dbl 2 (- 2)] [dbl 1 (- 2), dbl 1 (- 2)] 1 [] [] [] = Some t \<and>
      e_tab t ! 1 ! 1 = dbl 6 (- 2))"
proof -
  have f: "fcost [Fin 0, dbl 2 (- 2)] [dbl 1 (- 2), dbl 1 (- 2)] 1 (Key Gap Gap) = dbl 6 (- 2)"
    by (simp add: weight_sum_def upt_conv_Cons dadd_eval rne_def)
  have n: "nonneg [Fin 0, dbl 2 (- 2)] [dbl 1 (- 2), dbl 1 (- 2)] 1"
    by (rule nonneg_pair) (simp_all add: finite_nonneg_dbl)
  have d: "\<exists>s \<in> set (all_shapes 1).
      dless (fcost [Fin 0, dbl 2 (- 2)] [dbl 1 (- 2), dbl 1 (- 2)] 1 s) DBL_MAX"
    unfolding all_shapes_1 using f by (simp add: dless_MAX_eval)
  from optimality[of 1 "[Fin 0, dbl 2 (- 2)]" "[dbl 1 (- 2), dbl 1 (- 2)]", OF _ _ n d] obtain t where
    t: "optimalBST [Fin 0, dbl 2 (- 2)] [dbl 1 (- 2), dbl 1 (- 2)] 1 [] [] [] = Some t"
    "\<exists>s \<in> set (all_shapes 1). e_tab t ! 1 ! 1 = fcost [Fin 0, dbl 2 (- 2)] [dbl 1 (- 2), dbl 1 (- 2)] 1 s"
    by auto
  from t(2) f have "e_tab t ! 1 ! 1 = dbl 6 (- 2)"
    unfolding all_shapes_1 by simp
  with t(1) have "\<exists>t. optimalBST [Fin 0, dbl 2 (- 2)] [dbl 1 (- 2), dbl 1 (- 2)] 1 [] [] [] = Some t \<and>
      e_tab t ! 1 ! 1 = dbl 6 (- 2)"
    by blast
  with n d show ?thesis by simp
qed

text \<open>
  The claim as stated fails for the non-negative inputs \<open>p = [_, 1]\<close>,
  \<open>q = [2\<^sup>-\<^sup>5\<^sup>3, 2\<^sup>-\<^sup>5\<^sup>3]\<close>, \<open>n = 1\<close>: the only tree has the expected cost
  \<open>p[1] + 2 q[0] + 2 q[1] = 1 + 2\<^sup>-\<^sup>5\<^sup>1\<close>, and the program leaves \<open>1 + 2\<^sup>-\<^sup>5\<^sup>2\<close> in \<open>e[1][1]\<close>,
  since the weight \<open>w[1][1]\<close> was rounded to \<open>1\<close>.
\<close>

theorem optimality_counterexample:
  "nonneg [Fin 0, dbl 9007199254740992 (- 53)] [dbl 1 (- 53), dbl 1 (- 53)] 1 \<and>
   optimalBST [Fin 0, dbl 9007199254740992 (- 53)] [dbl 1 (- 53), dbl 1 (- 53)] 1 [] [] [] =
     Some rounding_tables \<and>
   map val [Fin 0, dbl 9007199254740992 (- 53)] = [0, 1] \<and>
   map val [dbl 1 (- 53), dbl 1 (- 53)] = [1 / 2 ^ 53, 1 / 2 ^ 53] \<and>
   min_cost [0, 1] [1 / 2 ^ 53, 1 / 2 ^ 53] 1 = 1 + 1 / 2 ^ 51 \<and>
   val (e_tab rounding_tables ! 1 ! 1) = 1 + 1 / 2 ^ 52"
proof (intro conjI)
  show "nonneg [Fin 0, dbl 9007199254740992 (- 53)] [dbl 1 (- 53), dbl 1 (- 53)] 1"
    unfolding one_as_dbl by (rule nonneg_pair) (simp_all add: finite_nonneg_dbl)
  show "optimalBST [Fin 0, dbl 9007199254740992 (- 53)] [dbl 1 (- 53), dbl 1 (- 53)] 1 [] [] [] =
     Some rounding_tables"
    by (rule rounding_run)
  show "min_cost [0, 1] [1 / 2 ^ 53, 1 / 2 ^ 53] 1 = 1 + 1 / 2 ^ 51"
    unfolding min_cost_1 by simp
qed (simp_all add: rounding_tables_def val_dbl)

section \<open>The roots are in range\<close>

lemma final_hit:
  assumes "final p q n t" "nonneg p q n" "1 \<le> i" "i \<le> j" "j \<le> n" "e_tab t ! i ! j < DBL_MAX"
  shows "\<exists>r. i \<le> r \<and> r \<le> j \<and> root_tab t ! i ! j = int r \<and> e_tab t ! i ! j = cand t i j r"
  using final_cell[OF assms(1-5)] assms(6) by auto

lemma w_grow_right:
  assumes "final p q n t" "nonneg p q n" "1 \<le> i" "i \<le> j + 1" "j + 1 \<le> n"
  shows "w_tab t ! i ! j \<le> w_tab t ! i ! (j + 1)"
proof -
  from assms have "cell_ok p q t i (j + 1)" by (simp add: final_def)
  then have w: "w_tab t ! i ! (j + 1) = dadd (dadd (w_tab t ! i ! j) (p ! (j + 1))) (q ! (j + 1))"
    by (simp add: cell_ok_def)
  have a: "nn (w_tab t ! i ! j)"
    using final_w_nn[OF assms(1,2,3,4)] assms(5) by simp
  have b: "nn (p ! (j + 1))" "nn (q ! (j + 1))"
    using nonneg_nn[OF assms(2), of "j + 1"] assms(5) by simp_all
  have "w_tab t ! i ! j \<le> dadd (w_tab t ! i ! j) (p ! (j + 1))"
    using a b by (simp add: dadd_ge_left)
  also have "\<dots> \<le> w_tab t ! i ! (j + 1)"
    unfolding w using a b by (simp add: dadd_ge_left nn_dadd)
  finally show ?thesis .
qed

lemma w_grow_left:
  assumes "final p q n t" "nonneg p q n" "1 \<le> i"
  shows "i \<le> j \<Longrightarrow> j \<le> n \<Longrightarrow> w_tab t ! (i + 1) ! j \<le> w_tab t ! i ! j"
proof (induction j)
  case 0
  with assms(3) show ?case by simp
next
  case (Suc j)
  from assms Suc.prems have "cell_ok p q t i (Suc j)" by (simp add: final_def)
  then have w: "w_tab t ! i ! Suc j = dadd (dadd (w_tab t ! i ! j) (p ! Suc j)) (q ! Suc j)"
    by (simp add: cell_ok_def)
  have a: "nn (w_tab t ! i ! j)"
    using final_w_nn[OF assms(1,2,3), of j] Suc.prems by simp
  have b: "nn (p ! Suc j)" "nn (q ! Suc j)"
    using nonneg_nn[OF assms(2), of "Suc j"] Suc.prems by simp_all
  show ?case
  proof (cases "i = Suc j")
    case True
    from assms Suc.prems have "base_ok q t (i + 1)" by (simp add: final_def)
    with True have "w_tab t ! (i + 1) ! Suc j = q ! Suc j" by (simp add: base_ok_def)
    also have "\<dots> \<le> w_tab t ! i ! Suc j"
      unfolding w using a b by (simp add: dadd_ge_right nn_dadd)
    finally show ?thesis .
  next
    case False
    with Suc.prems have ij: "i \<le> j" "j \<le> n" "i + 1 \<le> Suc j" by simp_all
    from assms ij Suc.prems have "cell_ok p q t (i + 1) (Suc j)" by (simp add: final_def)
    then have w': "w_tab t ! (i + 1) ! Suc j =
        dadd (dadd (w_tab t ! (i + 1) ! j) (p ! Suc j)) (q ! Suc j)"
      by (simp add: cell_ok_def)
    have a': "nn (w_tab t ! (i + 1) ! j)"
      using final_w_nn[OF assms(1,2), of "i + 1" j] ij by simp
    have "dadd (w_tab t ! (i + 1) ! j) (p ! Suc j) \<le> dadd (w_tab t ! i ! j) (p ! Suc j)"
      by (rule dadd_mono) (use a a' b Suc.IH[OF ij(1,2)] in simp_all)
    then show ?thesis
      unfolding w w' by (rule dadd_mono[rotated 4]) (use a a' b in \<open>simp_all add: nn_dadd\<close>)
  qed
qed

lemma cand_mono:
  assumes "nn a" "nn a'" "nn b" "nn b'" "nn c" "nn c'" "a \<le> a'" "b \<le> b'" "c \<le> c'"
  shows "dadd (dadd a b) c \<le> dadd (dadd a' b') c'"
proof (rule dadd_mono)
  show "dadd a b \<le> dadd a' b'"
    by (rule dadd_mono) (use assms in simp_all)
qed (use assms in \<open>simp_all add: nn_dadd\<close>)

lemma cand_ge:
  assumes "nn a" "nn b" "nn c"
  shows "a \<le> dadd (dadd a b) c" "b \<le> dadd (dadd a b) c"
proof -
  have "dadd a b \<le> dadd (dadd a b) c"
    using assms by (simp add: dadd_ge_left nn_dadd)
  moreover have "a \<le> dadd a b" "b \<le> dadd a b"
    using assms by (simp_all add: dadd_ge_left dadd_ge_right)
  ultimately show "a \<le> dadd (dadd a b) c" "b \<le> dadd (dadd a b) c"
    by (auto intro: order_trans)
qed

lemma e_mono_right:
  assumes "final p q n t" "nonneg p q n"
  shows "1 \<le> a \<Longrightarrow> a \<le> b + 1 \<Longrightarrow> b + 1 \<le> n \<Longrightarrow> e_tab t ! a ! (b + 1) < DBL_MAX \<Longrightarrow>
         e_tab t ! a ! b \<le> e_tab t ! a ! (b + 1)"
proof (induction "b + 1 - a" arbitrary: a b rule: less_induct)
  case less
  note en = final_e_nn[OF assms]
  note wn = final_w_nn[OF assms]
  from final_hit[OF assms less.prems(1,2,3,4)] obtain r where r: "a \<le> r" "r \<le> b + 1"
    "e_tab t ! a ! (b + 1) = cand t a (b + 1) r"
    by blast
  have w: "nn (w_tab t ! a ! (b + 1))"
    using less.prems by (intro wn) simp_all
  have l: "nn (e_tab t ! a ! (r - 1))"
    using r less.prems by (intro en) simp_all
  have rr: "nn (e_tab t ! (r + 1) ! (b + 1))"
    using r less.prems by (intro en) simp_all
  note ge = cand_ge[OF l rr w, folded cand_def, folded r(3)]
  show ?case
  proof (cases "r = b + 1")
    case True
    with ge(1) show ?thesis by simp
  next
    case False
    with r have rb: "r \<le> b" "a \<le> b" by simp_all
    from less.prems have bn: "b \<le> n" by simp
    have w': "nn (w_tab t ! a ! b)"
      using less.prems by (intro wn) simp_all
    have rr': "nn (e_tab t ! (r + 1) ! b)"
      using r rb less.prems by (intro en) simp_all
    have "e_tab t ! (r + 1) ! (b + 1) < DBL_MAX"
      using ge(2) less.prems(4) by (rule le_less_trans)
    then have m: "e_tab t ! (r + 1) ! b \<le> e_tab t ! (r + 1) ! (b + 1)"
      using r rb less.prems by (intro less.hyps) simp_all
    have "e_tab t ! a ! b \<le> cand t a b r"
      by (rule final_e_le_cand[OF assms less.prems(1) rb(2) bn r(1) rb(1)])
    also have "\<dots> \<le> cand t a (b + 1) r"
      unfolding cand_def
      by (rule cand_mono) (use l rr rr' w w' m w_grow_right[OF assms less.prems(1,2,3)] in simp_all)
    finally show ?thesis unfolding r(3) .
  qed
qed

lemma e_mono_left:
  assumes "final p q n t" "nonneg p q n"
  shows "1 \<le> a \<Longrightarrow> a \<le> b \<Longrightarrow> b \<le> n \<Longrightarrow> e_tab t ! a ! b < DBL_MAX \<Longrightarrow>
         e_tab t ! (a + 1) ! b \<le> e_tab t ! a ! b"
proof (induction "b + 1 - a" arbitrary: a b rule: less_induct)
  case less
  note en = final_e_nn[OF assms]
  note wn = final_w_nn[OF assms]
  from final_hit[OF assms less.prems] obtain r where r: "a \<le> r" "r \<le> b"
    "e_tab t ! a ! b = cand t a b r"
    by blast
  have w: "nn (w_tab t ! a ! b)"
    using less.prems by (intro wn) simp_all
  have l: "nn (e_tab t ! a ! (r - 1))"
    using r less.prems by (intro en) simp_all
  have rr: "nn (e_tab t ! (r + 1) ! b)"
    using r less.prems by (intro en) simp_all
  note ge = cand_ge[OF l rr w, folded cand_def, folded r(3)]
  show ?case
  proof (cases "r = a")
    case True
    with ge(2) show ?thesis by simp
  next
    case False
    with r have ra: "a + 1 \<le> r" "a + 1 \<le> b" "a \<le> r - 1" "1 \<le> a + 1" "r - 1 \<le> n"
      using less.prems by simp_all
    have w': "nn (w_tab t ! (a + 1) ! b)"
      using ra less.prems by (intro wn) simp_all
    have l': "nn (e_tab t ! (a + 1) ! (r - 1))"
      using r ra less.prems by (intro en) simp_all
    have "e_tab t ! a ! (r - 1) < DBL_MAX"
      using ge(1) less.prems(4) by (rule le_less_trans)
    then have m: "e_tab t ! (a + 1) ! (r - 1) \<le> e_tab t ! a ! (r - 1)"
      using r ra less.prems by (intro less.hyps) simp_all
    have "e_tab t ! (a + 1) ! b \<le> cand t (a + 1) b r"
      by (rule final_e_le_cand[OF assms ra(4,2) less.prems(3) ra(1) r(2)])
    also have "\<dots> \<le> cand t a b r"
      unfolding cand_def
      by (rule cand_mono)
        (use l l' rr w w' m w_grow_left[OF assms less.prems(1,2,3)] in simp_all)
    finally show ?thesis unfolding r(3) .
  qed
qed

lemma first_row_below:
  assumes "final p q n t" "nonneg p q n" "e_tab t ! 1 ! n < DBL_MAX"
  shows "1 \<le> j \<Longrightarrow> j \<le> n \<Longrightarrow> e_tab t ! 1 ! j < DBL_MAX"
proof (induction "n - j" arbitrary: j)
  case 0
  with assms(3) show ?case by simp
next
  case (Suc d)
  then have below: "e_tab t ! 1 ! (j + 1) < DBL_MAX" by simp
  from this Suc.prems Suc.hyps(2)
  have "e_tab t ! 1 ! j \<le> e_tab t ! 1 ! (j + 1)"
    by (intro e_mono_right[OF assms(1,2)]) simp_all
  then show ?case using below by (rule le_less_trans)
qed

lemma all_cells_below:
  assumes "final p q n t" "nonneg p q n" "e_tab t ! 1 ! n < DBL_MAX"
  shows "1 \<le> i \<Longrightarrow> i \<le> j \<Longrightarrow> j \<le> n \<Longrightarrow> e_tab t ! i ! j < DBL_MAX"
proof (induction i)
  case 0
  then show ?case by simp
next
  case (Suc i)
  show ?case
  proof (cases "i = 0")
    case True
    with Suc.prems first_row_below[OF assms, of j] show ?thesis by simp
  next
    case False
    with Suc have below: "e_tab t ! i ! j < DBL_MAX" by simp
    from False Suc.prems have "e_tab t ! (i + 1) ! j \<le> e_tab t ! i ! j"
      by (intro e_mono_left[OF assms(1,2) _ _ _ below]) simp_all
    then have "e_tab t ! (i + 1) ! j < DBL_MAX" using below by (rule le_less_trans)
    then show ?thesis by simp
  qed
qed

lemma final_root_range:
  assumes "final p q n t" "nonneg p q n"
    and "\<exists>s \<in> set (all_shapes n). dless (fcost p q 1 s) DBL_MAX"
    and "1 \<le> i" "i \<le> j" "j \<le> n"
  shows "int i \<le> root_tab t ! i ! j \<and> root_tab t ! i ! j \<le> int j"
proof -
  from assms(3) obtain s0 where s0: "s0 \<in> set (all_shapes n)" "dless (fcost p q 1 s0) DBL_MAX"
    by blast
  from e_le_fcost[OF assms(1,2), of 1 n s0] s0(1) have "nn (fcost p q 1 s0)"
    by (simp add: all_shapes_complete)
  with s0(2) have "fcost p q 1 s0 < DBL_MAX"
    by (simp add: dless_nn nn_DBL_MAX)
  from final_optimum[OF assms(1,2) s0(1) this] have "e_tab t ! 1 ! n < DBL_MAX" by blast
  from all_cells_below[OF assms(1,2) this assms(4-6)]
  have "e_tab t ! i ! j < DBL_MAX" .
  from final_hit[OF assms(1,2,4-6) this] show ?thesis by auto
qed

text \<open>
  Claim C9, as amended.  For finite non-negative inputs for which the cost of some
  tree, computed in binary64, is below the sentinel \<^const>\<open>DBL_MAX\<close>, every non-empty
  interval \<open>1 \<le> i \<le> j \<le> n\<close> has its root assigned and in range, \<open>i \<le> root[i][j] \<le> j\<close>.
\<close>

theorem root_in_range:
  assumes "n < length p" "n < length q" "nonneg p q n"
    and "\<exists>s \<in> set (all_shapes n). dless (fcost p q 1 s) DBL_MAX"
    and "1 \<le> i" "i \<le> j" "j \<le> n"
  shows "\<exists>t. optimalBST p q n [] [] [] = Some t \<and>
           int i \<le> root_tab t ! i ! j \<and> root_tab t ! i ! j \<le> int j"
proof -
  from optimalBST_final[of n p q] assms(1,2) obtain t where
    t: "optimalBST p q n [] [] [] = Some t" "final p q n t" by blast
  from final_root_range[OF t(2) assms(3-7)] t(1) show ?thesis by blast
qed

lemma fcost_example:
  "fcost [Fin 0, dbl 2 (- 2)] [dbl 1 (- 2), dbl 1 (- 2)] 1 (Key Gap Gap) = dbl 6 (- 2)"
  by (simp add: weight_sum_def upt_conv_Cons dadd_eval rne_def)

lemma below_example:
  "\<exists>s \<in> set (all_shapes 1).
      dless (fcost [Fin 0, dbl 2 (- 2)] [dbl 1 (- 2), dbl 1 (- 2)] 1 s) DBL_MAX"
  unfolding all_shapes_1 using fcost_example by (simp add: dless_MAX_eval)

lemma nonneg_example_1: "nonneg [Fin 0, dbl 2 (- 2)] [dbl 1 (- 2), dbl 1 (- 2)] 1"
  by (rule nonneg_pair) (simp_all add: finite_nonneg_dbl)

theorem root_in_range_witness:
  "(1::nat) < length [Fin 0, dbl 2 (- 2)] \<and> (1::nat) < length [dbl 1 (- 2), dbl 1 (- 2)] \<and>
   nonneg [Fin 0, dbl 2 (- 2)] [dbl 1 (- 2), dbl 1 (- 2)] 1 \<and>
   (\<exists>s \<in> set (all_shapes 1).
      dless (fcost [Fin 0, dbl 2 (- 2)] [dbl 1 (- 2), dbl 1 (- 2)] 1 s) DBL_MAX) \<and>
   (1::nat) \<le> 1 \<and>
   (\<exists>t. optimalBST [Fin 0, dbl 2 (- 2)] [dbl 1 (- 2), dbl 1 (- 2)] 1 [] [] [] = Some t \<and>
      root_tab t ! 1 ! 1 = 1)"
proof -
  from root_in_range[of 1 "[Fin 0, dbl 2 (- 2)]" "[dbl 1 (- 2), dbl 1 (- 2)]" 1 1,
      OF _ _ nonneg_example_1 below_example] obtain t where
    t: "optimalBST [Fin 0, dbl 2 (- 2)] [dbl 1 (- 2), dbl 1 (- 2)] 1 [] [] [] = Some t"
    "int 1 \<le> root_tab t ! 1 ! 1" "root_tab t ! 1 ! 1 \<le> int 1" by auto
  from t(2,3) have "root_tab t ! 1 ! 1 = 1" by simp
  with t(1) have "\<exists>t. optimalBST [Fin 0, dbl 2 (- 2)] [dbl 1 (- 2), dbl 1 (- 2)] 1 [] [] [] = Some t \<and>
      root_tab t ! 1 ! 1 = 1"
    by blast
  with nonneg_example_1 below_example show ?thesis by simp
qed

text \<open>
  The claim as stated fails for the finite non-negative inputs \<open>p = [_, DBL_MAX]\<close>,
  \<open>q = [DBL_MAX, 0]\<close>, \<open>n = 1\<close>: the cost of the first candidate overflows to \<open>+\<infinity>\<close> and
  does not beat the sentinel, and \<open>root[1][1]\<close> keeps the \<open>0\<close> of the fresh table, below
  the interval \<open>[1, 1]\<close>.
\<close>

theorem root_in_range_counterexample:
  "nonneg [Fin 0, DBL_MAX] [DBL_MAX, Fin 0] 1 \<and>
   optimalBST [Fin 0, DBL_MAX] [DBL_MAX, Fin 0] 1 [] [] [] = Some overflow_tables \<and>
   root_tab overflow_tables ! 1 ! 1 = 0 \<and>
   \<not> (1 \<le> root_tab overflow_tables ! 1 ! 1)"
proof (intro conjI)
  show "optimalBST [Fin 0, DBL_MAX] [DBL_MAX, Fin 0] 1 [] [] [] = Some overflow_tables"
    by (rule overflow_run)
  show "nonneg [Fin 0, DBL_MAX] [DBL_MAX, Fin 0] 1"
    by (rule nonneg_overflow)
qed (simp_all add: overflow_tables_def)

section \<open>The structure reporter\<close>

lemma idx_int_Some: "0 \<le> k \<Longrightarrow> nat k < length v \<Longrightarrow> idx_int v k = Some (v ! nat k)"
  by (simp add: idx_int_def idx_def)

lemma report_empty:
  assumes "0 \<le> j" "nat j < length dummies" "0 \<le> parent_r" "nat parent_r < length keys"
  shows "printOptimalStructure roots keys dummies (j + 1) j parent_r is_left_child =
         Some [(GapFact j is_left_child parent_r,
                gap_line (dummies ! nat j) is_left_child (keys ! nat parent_r))]"
  by (subst printOptimalStructure.simps) (simp add: idx_int_Some assms)

lemma report_node:
  assumes "i \<le> j" "idx_int roots i = Some row" "idx_int row j = Some r"
    and "0 \<le> r" "nat r < length keys" "0 \<le> parent_r" "nat parent_r < length keys"
  shows "printOptimalStructure roots keys dummies i j parent_r is_left_child =
         do { ls \<leftarrow> printOptimalStructure roots keys dummies i (r - 1) r True;
              rs \<leftarrow> printOptimalStructure roots keys dummies (r + 1) j r False;
              Some ((if parent_r = 0 then (RootFact r, root_line (keys ! nat r))
                     else (ChildFact r is_left_child parent_r,
                           child_line (keys ! nat r) is_left_child (keys ! nat parent_r)))
                    # ls @ rs) }"
  using assms by (subst printOptimalStructure.simps) (simp add: idx_int_Some)

lemma report_tree:
  assumes tab: "\<And>a b. i0 \<le> a \<Longrightarrow> a \<le> b \<Longrightarrow> b \<le> j0 \<Longrightarrow>
      \<exists>row r. idx_int roots a = Some row \<and> idx_int row b = Some r \<and> a \<le> r \<and> r \<le> b \<and>
              r = roots ! nat a ! nat b"
    and lab: "1 \<le> i0" "nat j0 < length keys" "nat j0 < length dummies"
  shows "i0 \<le> i \<Longrightarrow> j \<le> j0 \<Longrightarrow> i \<le> j + 1 \<Longrightarrow> 0 \<le> parent_r \<Longrightarrow> nat parent_r < length keys \<Longrightarrow>
         \<exists>out T. printOptimalStructure roots keys dummies i j parent_r is_left_child = Some out \<and>
           map fst out = report_of T parent_r is_left_child \<and>
           keys_of T = [i..j] \<and> gaps_of T = [i - 1..j] \<and>
           (i \<le> j \<longrightarrow> (\<exists>l rt. T = KeyNode l (roots ! nat i ! nat j) rt))"
proof (induction "nat (j + 1 - i)" arbitrary: i j parent_r is_left_child rule: less_induct)
  case less
  show ?case
  proof (cases "i \<le> j")
    case False
    with less.prems have j: "i = j + 1" "0 \<le> j" "nat j < length dummies"
      using lab by simp_all
    have "printOptimalStructure roots keys dummies i j parent_r is_left_child =
        Some [(GapFact j is_left_child parent_r,
               gap_line (dummies ! nat j) is_left_child (keys ! nat parent_r))]"
      unfolding j(1) by (rule report_empty[OF j(2,3) less.prems(4,5)])
    moreover have "map fst [(GapFact j is_left_child parent_r,
               gap_line (dummies ! nat j) is_left_child (keys ! nat parent_r))] =
        report_of (GapLeaf j) parent_r is_left_child" by simp
    moreover have "keys_of (GapLeaf j) = [i..j]" "gaps_of (GapLeaf j) = [i - 1..j]"
      using j by simp_all
    ultimately show ?thesis using False by blast
  next
    case True
    from tab[OF less.prems(1) True less.prems(2)] obtain row r where
      r: "idx_int roots i = Some row" "idx_int row j = Some r" "i \<le> r" "r \<le> j"
      and entry: "r = roots ! nat i ! nat j" by blast
    from r(3,4) less.prems(1,2) lab have rk: "0 \<le> r" "nat r < length keys" by linarith+
    have "\<exists>out T. printOptimalStructure roots keys dummies i (r - 1) r True = Some out \<and>
           map fst out = report_of T r True \<and>
           keys_of T = [i..r - 1] \<and> gaps_of T = [i - 1..r - 1] \<and>
           (i \<le> r - 1 \<longrightarrow> (\<exists>l rt. T = KeyNode l (roots ! nat i ! nat (r - 1)) rt))"
      using r less.prems rk by (intro less.hyps) simp_all
    then obtain outl Tl where l:
      "printOptimalStructure roots keys dummies i (r - 1) r True = Some outl"
      "map fst outl = report_of Tl r True" "keys_of Tl = [i..r - 1]" "gaps_of Tl = [i - 1..r - 1]"
      by blast
    have "\<exists>out T. printOptimalStructure roots keys dummies (r + 1) j r False = Some out \<and>
           map fst out = report_of T r False \<and>
           keys_of T = [r + 1..j] \<and> gaps_of T = [r + 1 - 1..j] \<and>
           (r + 1 \<le> j \<longrightarrow> (\<exists>l rt. T = KeyNode l (roots ! nat (r + 1) ! nat j) rt))"
      using r less.prems rk by (intro less.hyps) simp_all
    then obtain outr Tr where rr:
      "printOptimalStructure roots keys dummies (r + 1) j r False = Some outr"
      "map fst outr = report_of Tr r False" "keys_of Tr = [r + 1..j]" "gaps_of Tr = [r..j]"
      by auto
    let ?here = "if parent_r = 0 then (RootFact r, root_line (keys ! nat r))
                 else (ChildFact r is_left_child parent_r,
                       child_line (keys ! nat r) is_left_child (keys ! nat parent_r))"
    let ?T = "KeyNode Tl r Tr"
    have run: "printOptimalStructure roots keys dummies i j parent_r is_left_child =
        Some (?here # outl @ outr)"
      unfolding report_node[OF True r(1,2) rk less.prems(4,5)] by (simp add: l(1) rr(1))
    have rep: "map fst (?here # outl @ outr) = report_of ?T parent_r is_left_child"
      by (simp add: l(2) rr(2))
    have keys: "keys_of ?T = [i..j]"
      using upto_split3[OF r(3,4)] by (simp add: l(3) rr(3))
    have "[i - 1..j] = [i - 1..r - 1] @ [r - 1 + 1..j]"
      using r(3,4) by (intro upto_split2) simp_all
    then have gaps: "gaps_of ?T = [i - 1..j]"
      by (simp add: l(4) rr(4))
    from run rep keys gaps entry show ?thesis by blast
  qed
qed

lemma key_indices_simps [simp]:
  "key_indices [] = []" "key_indices (f # fs) = key_index f @ key_indices fs"
  "key_indices (fs @ gs) = key_indices fs @ key_indices gs"
  by (simp_all add: key_indices_def)

lemma gap_indices_simps [simp]:
  "gap_indices [] = []" "gap_indices (f # fs) = gap_index f @ gap_indices fs"
  "gap_indices (fs @ gs) = gap_indices fs @ gap_indices gs"
  by (simp_all add: gap_indices_def)

lemma key_indices_report:
  "set (key_indices (report_of T parent_r s)) = set (keys_of T) \<and>
   length (key_indices (report_of T parent_r s)) = length (keys_of T)"
  by (induction T arbitrary: parent_r s) auto

lemma gap_indices_report:
  "set (gap_indices (report_of T parent_r s)) = set (gaps_of T) \<and>
   length (gap_indices (report_of T parent_r s)) = length (gaps_of T)"
  by (induction T arbitrary: parent_r s) auto

lemma distinct_by_card:
  assumes "set xs = set ys" "length xs = length ys" "distinct ys"
  shows "distinct xs"
proof -
  from assms have "card (set xs) = length xs"
    by (simp add: distinct_card)
  then show ?thesis by (rule card_distinct)
qed

lemma final_report:
  assumes f: "final p q n t" and nn: "nonneg p q n"
    and m: "\<exists>s \<in> set (all_shapes n). dless (fcost p q 1 s) DBL_MAX"
    and lab: "n < length keys" "n < length dummies"
  shows "\<exists>out T. printOptimalStructure (root_tab t) keys dummies 1 (int n) 0 False = Some out \<and>
           map fst out = report_of T 0 False \<and>
           keys_of T = [1..int n] \<and> gaps_of T = [0..int n] \<and>
           (1 \<le> n \<longrightarrow> (\<exists>l rt. T = KeyNode l (root_tab t ! 1 ! n) rt))"
proof -
  from f have sq: "square n (root_tab t)" by (simp add: final_def tsquare_def)
  have tab: "\<exists>row r. idx_int (root_tab t) a = Some row \<and> idx_int row b = Some r \<and> a \<le> r \<and> r \<le> b \<and>
              r = root_tab t ! nat a ! nat b"
    if "1 \<le> a" "a \<le> b" "b \<le> int n" for a b
  proof -
    from that have ab: "1 \<le> nat a" "nat a \<le> nat b" "nat b \<le> n" "nat a < n + 2" "nat b < n + 2"
      by linarith+
    from sq ab have "idx_int (root_tab t) a = Some (root_tab t ! nat a)"
      using that by (intro idx_int_Some) (simp_all add: square_def)
    moreover from square_row[OF sq ab(4)] ab have "idx_int (root_tab t ! nat a) b = Some (root_tab t ! nat a ! nat b)"
      using that by (intro idx_int_Some) simp_all
    moreover from final_root_range[OF f nn m ab(1-3)] that
    have "a \<le> root_tab t ! nat a ! nat b" "root_tab t ! nat a ! nat b \<le> b" by simp_all
    ultimately show ?thesis by blast
  qed
  have "\<exists>out T. printOptimalStructure (root_tab t) keys dummies 1 (int n) 0 False = Some out \<and>
           map fst out = report_of T 0 False \<and>
           keys_of T = [1..int n] \<and> gaps_of T = [1 - 1..int n] \<and>
           (1 \<le> int n \<longrightarrow> (\<exists>l rt. T = KeyNode l (root_tab t ! nat 1 ! nat (int n)) rt))"
  proof (rule report_tree[where ?i0.0 = 1 and ?j0.0 = "int n"])
    show "\<exists>row r. idx_int (root_tab t) a = Some row \<and> idx_int row b = Some r \<and> a \<le> r \<and> r \<le> b \<and>
              r = root_tab t ! nat a ! nat b" if "1 \<le> a" "a \<le> b" "b \<le> int n" for a b
      using that by (rule tab)
    show "nat 0 < length keys" using lab by auto
    show "nat (int n) < length keys" "nat (int n) < length dummies" using lab by simp_all
  qed simp_all
  then show ?thesis by simp
qed

text \<open>
  Claim C6, as amended.  For \<open>n \<ge> 1\<close> and a root table produced by the builder from
  finite non-negative inputs for which the cost of some tree, computed in binary64, is
  below the sentinel \<^const>\<open>DBL_MAX\<close>, the report over
  \<open>[1, n]\<close> returns, and it is the pre-order report (each node before its subtrees,
  left before right, every child naming its parent) of a binary tree whose keys in
  order are \<open>1..n\<close>, whose gaps in order are \<open>0..n\<close> and whose root is \<open>root[1][n]\<close>; so
  it has exactly \<open>n\<close> key facts and \<open>n + 1\<close> gap facts, every index once.
\<close>

theorem structure_report:
  assumes "n < length p" "n < length q" "nonneg p q n"
    and "\<exists>s \<in> set (all_shapes n). dless (fcost p q 1 s) DBL_MAX"
    and "1 \<le> n" "n < length keys" "n < length dummies"
  shows "\<exists>t out T. optimalBST p q n [] [] [] = Some t \<and>
           printOptimalStructure (root_tab t) keys dummies 1 (int n) 0 False = Some out \<and>
           map fst out = report_of T 0 False \<and>
           keys_of T = [1..int n] \<and> gaps_of T = [0..int n] \<and>
           (\<exists>l rt. T = KeyNode l (root_tab t ! 1 ! n) rt) \<and>
           length (key_indices (map fst out)) = n \<and> distinct (key_indices (map fst out)) \<and>
           set (key_indices (map fst out)) = {1..int n} \<and>
           length (gap_indices (map fst out)) = n + 1 \<and> distinct (gap_indices (map fst out)) \<and>
           set (gap_indices (map fst out)) = {0..int n}"
proof -
  from optimalBST_final[of n p q] assms(1,2) obtain t where
    t: "optimalBST p q n [] [] [] = Some t" "final p q n t" by blast
  from final_report[OF t(2) assms(3,4,6,7)] assms(5) obtain out T where
    r: "printOptimalStructure (root_tab t) keys dummies 1 (int n) 0 False = Some out"
    "map fst out = report_of T 0 False" "keys_of T = [1..int n]" "gaps_of T = [0..int n]"
    "\<exists>l rt. T = KeyNode l (root_tab t ! 1 ! n) rt" by blast
  note k = key_indices_report[of T 0 False, unfolded r(3)]
  note g = gap_indices_report[of T 0 False, unfolded r(4)]
  have kl: "length (key_indices (map fst out)) = n"
    and ks: "set (key_indices (map fst out)) = {1..int n}"
    and gl: "length (gap_indices (map fst out)) = n + 1"
    and gs: "set (gap_indices (map fst out)) = {0..int n}"
    using k g by (simp_all add: r(2))
  have kd: "distinct (key_indices (map fst out))"
    unfolding r(2) by (rule distinct_by_card[where ys = "[1..int n]"]) (use k in simp_all)
  have gd: "distinct (gap_indices (map fst out))"
    unfolding r(2) by (rule distinct_by_card[where ys = "[0..int n]"]) (use g in simp_all)
  have all: "optimalBST p q n [] [] [] = Some t \<and>
           printOptimalStructure (root_tab t) keys dummies 1 (int n) 0 False = Some out \<and>
           map fst out = report_of T 0 False \<and>
           keys_of T = [1..int n] \<and> gaps_of T = [0..int n] \<and>
           (\<exists>l rt. T = KeyNode l (root_tab t ! 1 ! n) rt) \<and>
           length (key_indices (map fst out)) = n \<and> distinct (key_indices (map fst out)) \<and>
           set (key_indices (map fst out)) = {1..int n} \<and>
           length (gap_indices (map fst out)) = n + 1 \<and> distinct (gap_indices (map fst out)) \<and>
           set (gap_indices (map fst out)) = {0..int n}"
    by (intro conjI) (fact t(1) r kl kd ks gl gd gs)+
  show ?thesis
    by (rule exI[of _ t], rule exI[of _ out], rule exI[of _ T], rule all)
qed

theorem structure_report_witness:
  "(1::nat) < length [Fin 0, dbl 2 (- 2)] \<and> (1::nat) < length [dbl 1 (- 2), dbl 1 (- 2)] \<and>
   nonneg [Fin 0, dbl 2 (- 2)] [dbl 1 (- 2), dbl 1 (- 2)] 1 \<and> (\<exists>s \<in> set (all_shapes 1).
      dless (fcost [Fin 0, dbl 2 (- 2)] [dbl 1 (- 2), dbl 1 (- 2)] 1 s) DBL_MAX) \<and>
   (1::nat) \<le> 1 \<and> (1::nat) < length ['''', ''k1''] \<and> (1::nat) < length [''d0'', ''d1''] \<and>
   (\<exists>t out. optimalBST [Fin 0, dbl 2 (- 2)] [dbl 1 (- 2), dbl 1 (- 2)] 1 [] [] [] = Some t \<and>
      printOptimalStructure (root_tab t) ['''', ''k1''] [''d0'', ''d1''] 1 1 0 False = Some out \<and>
      length (key_indices (map fst out)) = 1 \<and> length (gap_indices (map fst out)) = 2)"
proof -
  note n = nonneg_example_1
  note d = below_example
  have "\<exists>t out T. optimalBST [Fin 0, dbl 2 (- 2)] [dbl 1 (- 2), dbl 1 (- 2)] 1 [] [] [] = Some t \<and>
           printOptimalStructure (root_tab t) ['''', ''k1''] [''d0'', ''d1''] 1 (int 1) 0 False = Some out \<and>
           map fst out = report_of T 0 False \<and>
           keys_of T = [1..int 1] \<and> gaps_of T = [0..int 1] \<and>
           (\<exists>l rt. T = KeyNode l (root_tab t ! 1 ! 1) rt) \<and>
           length (key_indices (map fst out)) = 1 \<and> distinct (key_indices (map fst out)) \<and>
           set (key_indices (map fst out)) = {1..int 1} \<and>
           length (gap_indices (map fst out)) = 1 + 1 \<and> distinct (gap_indices (map fst out)) \<and>
           set (gap_indices (map fst out)) = {0..int 1}"
    by (rule structure_report[OF _ _ n d]) simp_all
  then obtain t out T where w:
    "optimalBST [Fin 0, dbl 2 (- 2)] [dbl 1 (- 2), dbl 1 (- 2)] 1 [] [] [] = Some t \<and>
     printOptimalStructure (root_tab t) ['''', ''k1''] [''d0'', ''d1''] 1 (int 1) 0 False = Some out \<and>
     map fst out = report_of T 0 False \<and>
     keys_of T = [1..int 1] \<and> gaps_of T = [0..int 1] \<and>
     (\<exists>l rt. T = KeyNode l (root_tab t ! 1 ! 1) rt) \<and>
     length (key_indices (map fst out)) = 1 \<and> distinct (key_indices (map fst out)) \<and>
     set (key_indices (map fst out)) = {1..int 1} \<and>
     length (gap_indices (map fst out)) = 1 + 1 \<and> distinct (gap_indices (map fst out)) \<and>
     set (gap_indices (map fst out)) = {0..int 1}"
    by (elim exE)
  from w have "optimalBST [Fin 0, dbl 2 (- 2)] [dbl 1 (- 2), dbl 1 (- 2)] 1 [] [] [] = Some t"
    "printOptimalStructure (root_tab t) ['''', ''k1''] [''d0'', ''d1''] 1 (int 1) 0 False = Some out"
    "length (key_indices (map fst out)) = 1" "length (gap_indices (map fst out)) = 1 + 1"
    by blast+
  then have "optimalBST [Fin 0, dbl 2 (- 2)] [dbl 1 (- 2), dbl 1 (- 2)] 1 [] [] [] = Some t \<and>
      printOptimalStructure (root_tab t) ['''', ''k1''] [''d0'', ''d1''] 1 1 0 False = Some out \<and>
      length (key_indices (map fst out)) = 1 \<and> length (gap_indices (map fst out)) = 2"
    by simp
  then have "\<exists>t out. optimalBST [Fin 0, dbl 2 (- 2)] [dbl 1 (- 2), dbl 1 (- 2)] 1 [] [] [] = Some t \<and>
      printOptimalStructure (root_tab t) ['''', ''k1''] [''d0'', ''d1''] 1 1 0 False = Some out \<and>
      length (key_indices (map fst out)) = 1 \<and> length (gap_indices (map fst out)) = 2"
    by (intro exI[of _ t] exI[of _ out])
  with n d show ?thesis by simp
qed

lemma report_loops:
  assumes "printOptimalStructure roots keys dummies i j parent_r is_left_child = Some y"
  shows "(roots, i, j, parent_r, is_left_child) \<noteq> (root_tab overflow_tables, 1, 1, 0, False)"
proof (rule printOptimalStructure.raw_induct[where
      P = "\<lambda>roots keys dummies i j parent_r is_left_child y.
             (roots, i, j, parent_r, is_left_child) \<noteq> (root_tab overflow_tables, 1, 1, 0, False)",
      OF _ assms], goal_cases)
  case (1 rec roots keys dummies i j parent_r is_left_child y)
  show ?case
  proof
    assume "(roots, i, j, parent_r, is_left_child) = (root_tab overflow_tables, 1, 1, 0, False)"
    then have a: "roots = root_tab overflow_tables" "i = 1" "j = 1" "parent_r = 0" "\<not> is_left_child"
      by simp_all
    then have "idx_int roots i = Some [0, 0, 0]" "idx_int [0, 0, 0 :: int] j = Some 0"
      by (simp_all add: overflow_tables_def idx_int_def idx_def)
    with 1(2) a obtain rs where "rec roots keys dummies 1 1 0 False = Some rs"
      by (auto simp: Option.bind_eq_Some_conv split: if_splits)
    from 1(1)[OF this] a show False by simp
  qed
qed

text \<open>
  The claim as stated fails for the root table the builder produces from the finite
  non-negative inputs \<open>p = [_, DBL_MAX]\<close>, \<open>q = [DBL_MAX, 0]\<close>, \<open>n = 1\<close>.  There \<open>root[1][1] = 0\<close>: the report
  prints \<open>keys[0]\<close> as the root, its left call on \<open>[1, -1]\<close> prints nothing, and its right
  call is again the call on \<open>[1, 1]\<close> with parent \<open>0\<close>, so the recursion never ends and
  no report is returned.
\<close>

theorem structure_report_counterexample:
  "nonneg [Fin 0, DBL_MAX] [DBL_MAX, Fin 0] 1 \<and>
   optimalBST [Fin 0, DBL_MAX] [DBL_MAX, Fin 0] 1 [] [] [] = Some overflow_tables \<and>
   printOptimalStructure (root_tab overflow_tables) ['''', ''k1''] [''d0'', ''d1''] 1 1 0 False = None"
proof (intro conjI)
  show "nonneg [Fin 0, DBL_MAX] [DBL_MAX, Fin 0] 1"
    by (rule nonneg_overflow)
  show "optimalBST [Fin 0, DBL_MAX] [DBL_MAX, Fin 0] 1 [] [] [] = Some overflow_tables"
    by (rule overflow_run)
  show "printOptimalStructure (root_tab overflow_tables) ['''', ''k1''] [''d0'', ''d1''] 1 1 0 False = None"
    using report_loops[of "root_tab overflow_tables" "['''', ''k1'']" "[''d0'', ''d1'']" 1 1 0 False]
    by (cases "printOptimalStructure (root_tab overflow_tables) ['''', ''k1''] [''d0'', ''d1''] 1 1 0 False") auto
qed

section \<open>The reference scenario and the degenerate input\<close>

lemma to_common_exponent: "- 56 < e \<Longrightarrow> dbl m e = dbl (m * 2 ^ nat (e + 56)) (- 56)"
  using dbl_shift[of "- 56" m "nat (e + 56)"] by simp

lemma reference_run:
  "optimalBST reference_p reference_q 5 [] [] [] = Some reference_tables"
  by (simp add: optimalBST_def resize_def base_case_def fill_cell_def try_root_def
      idx_def idx2_def upd2_def reference_tables_def reference_p_def reference_q_def
      upt_conv_Cons Let_def replicate_numeral to_common_exponent
      dadd_eval dless_dbl dless_MAX_eval dbl_eq_iff rne_def)

lemma reference_report:
  "printOptimalStructure (root_tab reference_tables)
     ['''', ''k1'', ''k2'', ''k3'', ''k4'', ''k5''] [''d0'', ''d1'', ''d2'', ''d3'', ''d4'', ''d5'']
     1 5 0 False =
   Some [(RootFact 2, ''k2 e a raiz da arvore.''),
         (ChildFact 1 True 2, ''k1 e o filho esquerdo de k2''),
         (GapFact 0 True 1, CHR 0x09 # ''d0 e o filho esquerdo de k1''),
         (GapFact 1 False 1, CHR 0x09 # ''d1 e o filho direito de k1''),
         (ChildFact 5 False 2, ''k5 e o filho direito de k2''),
         (ChildFact 4 True 5, ''k4 e o filho esquerdo de k5''),
         (ChildFact 3 True 4, ''k3 e o filho esquerdo de k4''),
         (GapFact 2 True 3, CHR 0x09 # ''d2 e o filho esquerdo de k3''),
         (GapFact 3 False 3, CHR 0x09 # ''d3 e o filho direito de k3''),
         (GapFact 4 False 4, CHR 0x09 # ''d4 e o filho direito de k4''),
         (GapFact 5 False 5, CHR 0x09 # ''d5 e o filho direito de k5'')]"
  by (simp add: printOptimalStructure.simps idx_int_def idx_def reference_tables_def
      gap_line_def root_line_def child_line_def side_def)

lemma reference_nonneg: "nonneg reference_p reference_q 5"
  by (simp add: nonneg_def reference_p_def reference_q_def atLeastAtMost_upt upt_conv_Cons
      finite_nonneg_dbl)

text \<open>
  Claim C7.  The five-key example of \<^verbatim>\<open>main\<close>, on the binary64 numbers nearest to the
  decimal inputs (each within half a unit in the last place of its literal): the
  builder yields \<open>e[1][5] = 2.75\<close> exactly and \<open>root[1][5] = 2\<close>, and the report has key
  2 as the root, key 1 as its left child, key 5 as its right child, key 4 as the
  left child of key 5 and key 3 as the left child of key 4 (with the six gaps below
  them), line by line as \<^verbatim>\<open>main\<close> expects.
\<close>

theorem reference_scenario:
  "\<bar>val (dbl 5404319552844595 (- 55)) - 0.15\<bar> \<le> 1 / 2 ^ 56 \<and>
   \<bar>val (dbl 3602879701896397 (- 55)) - 0.10\<bar> \<le> 1 / 2 ^ 57 \<and>
   \<bar>val (dbl 3602879701896397 (- 56)) - 0.05\<bar> \<le> 1 / 2 ^ 58 \<and>
   \<bar>val (dbl 3602879701896397 (- 54)) - 0.20\<bar> \<le> 1 / 2 ^ 56 \<and>
   optimalBST reference_p reference_q 5 [] [] [] = Some reference_tables \<and>
   e_tab reference_tables ! 1 ! 5 = dbl 11 (- 2) \<and>
   val (dbl 11 (- 2)) = 2.75 \<and>
   root_tab reference_tables ! 1 ! 5 = 2 \<and>
   printOptimalStructure (root_tab reference_tables)
     ['''', ''k1'', ''k2'', ''k3'', ''k4'', ''k5''] [''d0'', ''d1'', ''d2'', ''d3'', ''d4'', ''d5'']
     1 5 0 False =
   Some [(RootFact 2, ''k2 e a raiz da arvore.''),
         (ChildFact 1 True 2, ''k1 e o filho esquerdo de k2''),
         (GapFact 0 True 1, CHR 0x09 # ''d0 e o filho esquerdo de k1''),
         (GapFact 1 False 1, CHR 0x09 # ''d1 e o filho direito de k1''),
         (ChildFact 5 False 2, ''k5 e o filho direito de k2''),
         (ChildFact 4 True 5, ''k4 e o filho esquerdo de k5''),
         (ChildFact 3 True 4, ''k3 e o filho esquerdo de k4''),
         (GapFact 2 True 3, CHR 0x09 # ''d2 e o filho esquerdo de k3''),
         (GapFact 3 False 3, CHR 0x09 # ''d3 e o filho direito de k3''),
         (GapFact 4 False 4, CHR 0x09 # ''d4 e o filho direito de k4''),
         (GapFact 5 False 5, CHR 0x09 # ''d5 e o filho direito de k5'')]"
proof (intro conjI)
  show "optimalBST reference_p reference_q 5 [] [] [] = Some reference_tables"
    by (rule reference_run)
  show "e_tab reference_tables ! 1 ! 5 = dbl 11 (- 2)"
    by (simp add: reference_tables_def)
  show "root_tab reference_tables ! 1 ! 5 = 2"
    by (simp add: reference_tables_def)
  show "printOptimalStructure (root_tab reference_tables)
     ['''', ''k1'', ''k2'', ''k3'', ''k4'', ''k5''] [''d0'', ''d1'', ''d2'', ''d3'', ''d4'', ''d5'']
     1 5 0 False =
   Some [(RootFact 2, ''k2 e a raiz da arvore.''),
         (ChildFact 1 True 2, ''k1 e o filho esquerdo de k2''),
         (GapFact 0 True 1, CHR 0x09 # ''d0 e o filho esquerdo de k1''),
         (GapFact 1 False 1, CHR 0x09 # ''d1 e o filho direito de k1''),
         (ChildFact 5 False 2, ''k5 e o filho direito de k2''),
         (ChildFact 4 True 5, ''k4 e o filho esquerdo de k5''),
         (ChildFact 3 True 4, ''k3 e o filho esquerdo de k4''),
         (GapFact 2 True 3, CHR 0x09 # ''d2 e o filho esquerdo de k3''),
         (GapFact 3 False 3, CHR 0x09 # ''d3 e o filho direito de k3''),
         (GapFact 4 False 4, CHR 0x09 # ''d4 e o filho direito de k4''),
         (GapFact 5 False 5, CHR 0x09 # ''d5 e o filho direito de k5'')]"
    by (rule reference_report)
qed (simp_all add: val_dbl)

lemma single_gap_run: "optimalBST p [dbl 1 0] 0 [] [] [] = Some single_gap_tables"
  by (simp add: optimalBST_def resize_def base_case_def idx_def upd2_def single_gap_tables_def)

text \<open>
  Claim C8.  The input \<open>n = 0\<close>, \<open>q = [1.0]\<close> is no error (\<open>p\<close> is never read): the builder
  returns tables with \<open>e[1][0] = 1.0\<close>, and the report over \<open>[1, 0]\<close> is one line, the
  gap fact for gap 0, and no key fact.
\<close>

theorem degenerate_input:
  "optimalBST p [dbl 1 0] 0 [] [] [] = Some single_gap_tables \<and>
   e_tab single_gap_tables ! 1 ! 0 = dbl 1 0 \<and> val (dbl 1 0) = 1 \<and>
   printOptimalStructure (root_tab single_gap_tables) (k # keys) (d # dummies) 1 0 0 False =
     Some [(GapFact 0 False 0, gap_line d False k)] \<and>
   key_indices [GapFact 0 False 0] = [] \<and>
   gap_indices [GapFact 0 False 0] = [0]"
proof (intro conjI)
  show "optimalBST p [dbl 1 0] 0 [] [] [] = Some single_gap_tables"
    by (rule single_gap_run)
  show "e_tab single_gap_tables ! 1 ! 0 = dbl 1 0"
    by (simp add: single_gap_tables_def)
  show "printOptimalStructure (root_tab single_gap_tables) (k # keys) (d # dummies) 1 0 0 False =
     Some [(GapFact 0 False 0, gap_line d False k)]"
    using report_empty[of 0 "d # dummies" 0 "k # keys" "root_tab single_gap_tables" False]
    by simp
qed (simp_all add: val_dbl)

text \<open>
  Claim C10.  Called on an empty interval \<open>[j + 1, j]\<close> with the no-parent marker
  \<open>parent_r = 0\<close> (the whole-tree call for \<open>n = 0\<close> is the case \<open>j = 0\<close>), the reporter
  still prints a parent: the line names \<open>keys[0]\<close>, the placeholder label, as the key
  the gap is a child of.  Only a key node tests \<open>parent_r == 0\<close>.
\<close>

theorem gap_without_parent:
  assumes "0 \<le> j" "nat j < length dummies" "keys \<noteq> []"
  shows "printOptimalStructure roots keys dummies (j + 1) j 0 is_left_child =
         Some [(GapFact j is_left_child 0,
                [CHR 0x09] @ dummies ! nat j @ '' e o '' @
                (if is_left_child then ''filho esquerdo'' else ''filho direito'') @
                '' de '' @ keys ! 0)]"
  using report_empty[OF assms(1,2), of 0 keys roots is_left_child] assms(3)
  by (simp add: gap_line_def side_def)

theorem gap_without_parent_witness:
  "(0::int) \<le> 0 \<and> nat 0 < length [''d0''] \<and> [''''] \<noteq> [] \<and>
   printOptimalStructure (root_tab single_gap_tables) [''''] [''d0''] 1 0 0 False =
     Some [(GapFact 0 False 0, CHR 0x09 # ''d0 e o filho direito de '')]"
  using gap_without_parent[of 0 "[''d0'']" "['''']" "root_tab single_gap_tables" False]
  by simp

end
